theory Spec2Isabelle
  imports Main
begin

section \<open>Funding and signing workflow of \<open>chain/fund_transaction.js\<close>\<close>

text \<open>
  The module exports one asynchronous function that validates a request, resolves a fee
  rate, derives outputs, selects coins, funds a PSBT, releases the locks of a dry run and
  signs. The steps are the named tasks of an \<open>async/auto\<close> dependency graph. The
  embedding follows the source: its helper functions become HOL functions on strings and
  integers, each task becomes a function on an explicit state, and each call of an external
  capability is recorded in a trace.

  Numbers. Token amounts, fee rates and output indices are JavaScript numbers in the
  source. They are modelled as \<open>int\<close> and \<open>nat\<close>: for integers of magnitude below
  \<open>2 ^ 52\<close> the additions, subtractions and comparisons of the source are exact, and
  \<open>(n / 1e8).toFixed(8)\<close> prints exactly the eight-decimal rendering of \<open>n / 10 ^ 8\<close>.
\<close>

subsection \<open>Characters, decimal numerals\<close>

definition is_digit :: "char \<Rightarrow> bool" where
  "is_digit c = (c \<in> set ''0123456789'')"

definition is_hex :: "char \<Rightarrow> bool" where
  \<comment> \<open>the class \<open>[0-9A-F]\<close> under the flag \<open>i\<close>\<close>
  "is_hex c = (c \<in> set ''0123456789ABCDEFabcdef'')"

definition digit_char :: "nat \<Rightarrow> char" where
  "digit_char d = ''0123456789'' ! (d mod 10)"

definition digit_val :: "char \<Rightarrow> nat" where
  \<comment> \<open>the place of the digit among the ten digits; zero for any other character\<close>
  "digit_val c = length (takeWhile (\<lambda>d. d \<noteq> c) ''0123456789'') mod 10"

text \<open>The decimal numeral of a natural number, as string conversion of a number prints it.\<close>

fun show_nat :: "nat \<Rightarrow> string" where
  "show_nat n = (if n < 10 then [digit_char n] else show_nat (n div 10) @ [digit_char n])"

declare show_nat.simps [simp del]

text \<open>The value of a run of decimal digits (leading zeros allowed).\<close>

definition dec_value :: "string \<Rightarrow> nat" where
  "dec_value s = foldl (\<lambda>a c. 10 * a + digit_val c) 0 s"

text \<open>
  \<open>Number(s)\<close> on the strings the workflow converts: a non-empty run of decimal digits
  gives its value. \<open>None\<close> stands for every other string (the empty string, signs,
  exponents, text that converts to \<open>NaN\<close>), whose conversion is not modelled.
\<close>

definition Number_js :: "string \<Rightarrow> nat option" where
  "Number_js s = (if s \<noteq> [] \<and> list_all is_digit s then Some (dec_value s) else None)"

subsection \<open>Helpers of the module\<close>

record utxo =
  transaction_id :: string
  transaction_vout :: nat
  tokens :: int

record parsed_utxo =
  p_id :: string
  p_vout :: "nat option"

text \<open>
  The fields \<open>id\<close> and \<open>vout\<close> of the object \<open>asUtxo\<close> builds are \<open>p_id\<close> and
  \<open>p_vout\<close> here; \<open>p_vout\<close> is \<open>None\<close> where \<open>Number\<close> is not modelled.
\<close>

record input =
  in_transaction_id :: string
  in_transaction_vout :: "nat option"

text \<open>\<open>const asOutpoint = utxo => `${utxo.transaction_id}:${utxo.transaction_vout}`\<close>\<close>

definition asOutpoint :: "string \<Rightarrow> nat \<Rightarrow> string" where
  "asOutpoint tid v = tid @ '':'' @ show_nat v"

text \<open>\<open>const asInput = n => ({transaction_id: n.id, transaction_vout: n.vout})\<close>\<close>

definition asInput :: "parsed_utxo \<Rightarrow> input" where
  "asInput n = \<lparr>in_transaction_id = p_id n, in_transaction_vout = p_vout n\<rparr>"

text \<open>\<open>const asUtxo = n => ({id: n.slice(0, 64), vout: Number(n.slice(65))})\<close>\<close>

definition asUtxo :: "string \<Rightarrow> parsed_utxo" where
  "asUtxo n = \<lparr>p_id = take 64 n, p_vout = Number_js (drop 65 n)\<rparr>"

definition dustValue :: int where
  "dustValue = 293"

definition minConfs :: nat where
  "minConfs = 1"

text \<open>\<open>const isOutpoint = n => !!n && /^[0-9A-F]{64}:[0-9]{1,6}$/i.test(n)\<close>\<close>

definition isOutpoint :: "string \<Rightarrow> bool" where
  "isOutpoint n =
     (n \<noteq> [] \<and> 66 \<le> length n \<and> length n \<le> 71 \<and> list_all is_hex (take 64 n)
      \<and> n ! 64 = CHR '':'' \<and> list_all is_digit (drop 65 n))"

text \<open>\<open>const isPublicKey = n => !!n && /^0[2-3][0-9A-F]{64}$/i.test(n)\<close>\<close>

definition isPublicKey :: "string \<Rightarrow> bool" where
  "isPublicKey n =
     (n \<noteq> [] \<and> length n = 66 \<and> n ! 0 = CHR ''0'' \<and> (n ! 1 = CHR ''2'' \<or> n ! 1 = CHR ''3'')
      \<and> list_all is_hex (drop 2 n))"

text \<open>\<open>const sumOf = arr => arr.reduce((sum, n) => sum + n, Number())\<close>\<close>

definition sumOf :: "int list \<Rightarrow> int" where
  "sumOf arr = foldl (\<lambda>sum n. sum + n) 0 arr"

text \<open>
  \<open>const asBigUnit = n => (n / 1e8).toFixed(8)\<close>: the integer part, a point, and the
  remainder in eight digits; a negative number prints its sign first.
\<close>

definition pad8 :: "string \<Rightarrow> string" where
  "pad8 s = replicate (8 - length s) CHR ''0'' @ s"

definition asBigUnit :: "int \<Rightarrow> string" where
  "asBigUnit n =
     (let m = nat \<bar>n\<bar>
      in (if n < 0 then ''-'' else '''') @ show_nat (m div 10 ^ 8) @ ''.'' @ pad8 (show_nat (m mod 10 ^ 8)))"

subsection \<open>Request, results of the external capabilities, errors\<close>

text \<open>
  The request object. A field that the validator tests with \<open>isArray\<close> is an option:
  \<open>None\<close> is any value that is not an array. \<open>arg_lnd\<close> and \<open>arg_ask\<close> say whether
  the handle and the prompt function are present. The logger is taken as present.
\<close>

record args =
  arg_addresses :: "string list option"
  arg_amounts :: "string list option"
  arg_ask :: bool
  arg_fee_tokens_per_vbyte :: "int option"
  arg_is_dry_run :: bool
  arg_is_selecting_utxos :: bool
  arg_lnd :: bool
  arg_utxos :: "string list option"

text \<open>
  Every error of the source is the array \<open>[code, message]\<close>. The constructors keep the
  place the error comes from; \<open>as_array\<close> gives the array the caller sees. An error of an
  external capability is passed on unchanged.
\<close>

datatype error =
    Precondition string
  | AmountParse string
  | EmptyWallet
  | DustOutput
  | External int string

fun as_array :: "error \<Rightarrow> int \<times> string" where
  "as_array (Precondition m) = (400, m)"
| "as_array (AmountParse m) = (400, m)"
| "as_array EmptyWallet = (400, ''WalletHasZeroConfirmedUtxos'')"
| "as_array DustOutput = (400, ''ExpectedNonDustAmountValueForFundingAmount'')"
| "as_array (External c m) = (c, m)"

record tx_output =
  out_address :: string
  out_tokens :: int

record funded_input =
  fi_lock_id :: string
  fi_transaction_id :: string
  fi_transaction_vout :: nat

record funded_output =
  fo_is_change :: bool
  fo_tokens :: int

record funded =
  f_inputs :: "funded_input list"
  f_outputs :: "funded_output list"
  f_psbt :: string

record fund_args =
  fa_outputs :: "tx_output list"
  fa_inputs :: "input list option"
  fa_fee_tokens_per_vbyte :: int

record choice =
  ch_name :: string
  ch_value :: string

text \<open>The calls of external capabilities, in the order the workflow issues them.\<close>

datatype call =
    GetChainFeeRate
  | ParseAmount string
  | GetUtxos nat
  | Ask "choice list"
  | LogFund int "(string \<times> int) list"
  | FundPsbt fund_args
  | UnlockUtxo string string nat
  | LogSign "int option" int "string list"
  | SignPsbt string

subsection \<open>The task \<open>validate\<close>\<close>

text \<open>
  \<open>args.utxos.find(n => !isOutpoint(n))\<close> is tested for truthiness as it is: the first
  element that is not an outpoint fails the check only when it is a non-empty string.
\<close>

definition validate :: "args \<Rightarrow> error option" where
  "validate a =
     (if \<not> arg_lnd a then Some (Precondition ''ExpectedAuthenticatedLndToFundTransaction'')
      else case arg_amounts a of
        None \<Rightarrow> Some (Precondition ''ExpectedAddressesToFundTransaction'')
      | Some ams \<Rightarrow>
      (case arg_addresses a of
        None \<Rightarrow> Some (Precondition ''ExpectedAddressesToFundTransaction'')
      | Some ads \<Rightarrow>
        if length ads = 0 then Some (Precondition ''ExpectedAddressToSendFundsToInTransaction'')
        else if length ads \<noteq> length ams
          then Some (Precondition ''ExpectedAmountOfFundsToSendToAddress'')
        else if find isPublicKey ads \<noteq> None
          then Some (Precondition ''ExpectedFundPayingToAddressesNotPublicKeys'')
        else if \<not> arg_ask a then Some (Precondition ''ExpectedAskFunctionToFundTransaction'')
        else (case arg_utxos a of
          None \<Rightarrow> Some (Precondition ''ExpectedArrayOfUtxosToSpendToFundTransaction'')
        | Some us \<Rightarrow>
          if (case find (\<lambda>n. \<not> isOutpoint n) us of None \<Rightarrow> False | Some n \<Rightarrow> n \<noteq> [])
            then Some (Precondition ''ExpectedOutpointFormattedUtxoToFundTransaction'')
          else if length us \<noteq> 0 \<and> arg_is_selecting_utxos a
            then Some (Precondition ''ExpectedEitherSelectUtxosOrExplicitUtxosNotBoth'')
          else None)))"

subsection \<open>State of one invocation\<close>

text \<open>
  \<open>async/auto\<close> runs a task as soon as the tasks it depends on have completed, in the
  order the tasks are declared. The first error is passed to the final callback at once;
  from then on no task is started, and the result of a call still in flight is stored and
  has no further effect. When no task is ready or running the final callback gets the
  results, of which \<open>returnResult\<close> takes \<open>funded\<close>.

  The state holds the results of the tasks (the \<open>results\<close> object), the flag
  \<open>hasError\<close>, the calls in flight, the calls issued so far, and the first value the
  final callback received.
\<close>

datatype pending = PFee | PUtxos | PAsk | PFund | PUnlock nat | PSign

record state =
  trace :: "call list"
  outcome :: "(error + string option) option"
  hasError :: bool
  pendings :: "pending list"
  r_getFee :: "int option"
  r_outputs :: "tx_output list option"
  r_getUtxos :: "utxo list option option"
  r_utxos :: "string list option"
  r_fund :: "funded option"
  r_unlock :: bool
  r_sign :: "string option"
  r_funded :: "string option"
  unlocked :: nat

definition init :: state where
  "init = \<lparr>trace = [], outcome = None, hasError = False, pendings = [],
     r_getFee = None, r_outputs = None, r_getUtxos = None, r_utxos = None, r_fund = None,
     r_unlock = False, r_sign = None, r_funded = None, unlocked = 0\<rparr>"

text \<open>A task passes an error to its callback: the final callback is called once.\<close>

definition fail :: "error \<Rightarrow> state \<Rightarrow> state" where
  "fail e s = s\<lparr>hasError := True,
     outcome := (case outcome s of None \<Rightarrow> Some (Inl e) | Some r \<Rightarrow> Some r)\<rparr>"

text \<open>\<open>processQueue\<close>: nothing ready, nothing running, no error.\<close>

definition finish :: "state \<Rightarrow> state" where
  "finish s =
     (if \<not> hasError s \<and> pendings s = [] \<and> outcome s = None
      then s\<lparr>outcome := Some (Inr (r_funded s))\<rparr> else s)"

definition issue :: "call list \<Rightarrow> pending list \<Rightarrow> state \<Rightarrow> state" where
  "issue cs ps s = s\<lparr>trace := trace s @ cs, pendings := pendings s @ ps\<rparr>"

subsection \<open>The tasks \<open>fund\<close>, \<open>unlock\<close>, \<open>sign\<close>, \<open>funded\<close>\<close>

text \<open>\<open>args.fee_tokens_per_vbyte || getFee.tokens_per_vbyte\<close>: zero is falsy.\<close>

definition fee_of :: "int option \<Rightarrow> int \<Rightarrow> int" where
  "fee_of given queried =
     (case given of None \<Rightarrow> queried | Some f \<Rightarrow> if f \<noteq> 0 then f else queried)"

definition fund :: "args \<Rightarrow> int \<Rightarrow> tx_output list \<Rightarrow> string list \<Rightarrow> state \<Rightarrow> state" where
  "fund a getFee outputs utxos s =
     (let inputs = map asInput (map asUtxo utxos);
          fee = fee_of (arg_fee_tokens_per_vbyte a) getFee
      in if length (filter (\<lambda>n. out_tokens n < dustValue) outputs) \<noteq> 0 then fail DustOutput s
         else issue
           [LogFund fee (map (\<lambda>output. (out_address output, out_tokens output)) outputs),
            FundPsbt \<lparr>fa_outputs = outputs,
              fa_inputs = (if length inputs \<noteq> 0 then Some inputs else None),
              fa_fee_tokens_per_vbyte = fee\<rparr>]
           [PFund] s)"

text \<open>
  \<open>fund\<close> is started by whichever of \<open>getFee\<close> and \<open>utxos\<close> completes last
  (\<open>outputs\<close> has completed before \<open>utxos\<close> starts).
\<close>

definition try_fund :: "args \<Rightarrow> state \<Rightarrow> state" where
  "try_fund a s =
     (case (r_getFee s, r_outputs s, r_utxos s) of
        (Some getFee, Some outputs, Some utxos) \<Rightarrow> fund a getFee outputs utxos s
      | _ \<Rightarrow> s)"

definition unlock_call :: "funded_input \<Rightarrow> call" where
  "unlock_call i = UnlockUtxo (fi_lock_id i) (fi_transaction_id i) (fi_transaction_vout i)"

text \<open>
  \<open>asyncEach\<close> calls the iteratee on every input in turn before any of the calls
  returns; on an empty array it completes at once.
\<close>

definition unlock :: "args \<Rightarrow> funded \<Rightarrow> state \<Rightarrow> state" where
  "unlock a f s =
     (if \<not> arg_is_dry_run a then s\<lparr>r_unlock := True\<rparr>
      else if f_inputs f = [] then s\<lparr>r_unlock := True\<rparr>
      else issue (map unlock_call (f_inputs f)) (map PUnlock [0 ..< length (f_inputs f)]) s)"

definition sign :: "funded \<Rightarrow> state \<Rightarrow> state" where
  "sign f s =
     (let change = (case filter fo_is_change (f_outputs f) of [] \<Rightarrow> None | c # _ \<Rightarrow> Some c);
          total = sumOf (map fo_tokens (f_outputs f));
          change_tokens = (case change of None \<Rightarrow> None | Some c \<Rightarrow> Some (fo_tokens c))
      in issue
           [LogSign (case change_tokens of None \<Rightarrow> None | Some t \<Rightarrow> if t \<noteq> 0 then Some t else None)
              total
              (map (\<lambda>i. asOutpoint (fi_transaction_id i) (fi_transaction_vout i)) (f_inputs f)),
            SignPsbt (f_psbt f)]
           [PSign] s)"

definition after_fund :: "args \<Rightarrow> funded \<Rightarrow> state \<Rightarrow> state" where
  "after_fund a f s = sign f (unlock a f s)"

subsection \<open>The tasks \<open>getFee\<close>, \<open>outputs\<close>, \<open>getUtxos\<close>, \<open>utxos\<close>\<close>

text \<open>
  \<open>outputs\<close> parses the amounts in order with the external parser, a parameter here:
  \<open>Inl\<close> is the message of the exception it throws. The first exception ends the map.
  The task runs after \<open>validate\<close>, so both arrays have one length.
\<close>

fun derive_outputs ::
  "(string \<Rightarrow> string + int) \<Rightarrow> (string \<times> string) list \<Rightarrow> call list \<times> (string + tx_output list)"
where
  "derive_outputs parseAmount [] = ([], Inr [])"
| "derive_outputs parseAmount ((address, amount) # rest) =
     (case parseAmount amount of
        Inl msg \<Rightarrow> ([ParseAmount amount], Inl msg)
      | Inr toks \<Rightarrow>
          (case derive_outputs parseAmount rest of
             (cs, Inl msg) \<Rightarrow> (ParseAmount amount # cs, Inl msg)
           | (cs, Inr outs) \<Rightarrow>
               (ParseAmount amount # cs,
                Inr (\<lparr>out_address = address, out_tokens = toks\<rparr> # outs))))"

definition choices_of :: "utxo list \<Rightarrow> choice list" where
  "choices_of us =
     map (\<lambda>utxo.
       \<lparr>ch_name = asBigUnit (tokens utxo) @ '' '' @ asOutpoint (transaction_id utxo) (transaction_vout utxo),
        ch_value = asOutpoint (transaction_id utxo) (transaction_vout utxo)\<rparr>) us"

definition complete_utxos :: "args \<Rightarrow> string list \<Rightarrow> state \<Rightarrow> state" where
  "complete_utxos a us s = try_fund a (s\<lparr>r_utxos := Some us\<rparr>)"

definition utxos :: "args \<Rightarrow> utxo list option \<Rightarrow> state \<Rightarrow> state" where
  "utxos a getUtxos s =
     (let given = (case arg_utxos a of None \<Rightarrow> [] | Some us \<Rightarrow> us)
      in if length given \<noteq> 0 then complete_utxos a given s
         else if \<not> arg_is_selecting_utxos a then complete_utxos a [] s
         else (case getUtxos of
                 None \<Rightarrow> s
               | Some us \<Rightarrow>
                   if length us = 0 then fail EmptyWallet s
                   else issue [Ask (choices_of us)] [PAsk] s))"

definition getUtxos :: "args \<Rightarrow> state \<Rightarrow> state" where
  "getUtxos a s =
     (if \<not> arg_is_selecting_utxos a then utxos a None (s\<lparr>r_getUtxos := Some None\<rparr>)
      else issue [GetUtxos minConfs] [PUtxos] s)"

definition outputs :: "args \<Rightarrow> (string \<Rightarrow> string + int) \<Rightarrow> state \<Rightarrow> state" where
  "outputs a parseAmount s =
     (case derive_outputs parseAmount
             (zip (case arg_addresses a of None \<Rightarrow> [] | Some ads \<Rightarrow> ads)
                  (case arg_amounts a of None \<Rightarrow> [] | Some ams \<Rightarrow> ams)) of
        (cs, Inl msg) \<Rightarrow> fail (AmountParse msg) (issue cs [] s)
      | (cs, Inr outs) \<Rightarrow> getUtxos a ((issue cs [] s)\<lparr>r_outputs := Some outs\<rparr>))"

text \<open>
  The start of an invocation: \<open>validate\<close>, then \<open>getFee\<close> (the call is issued),
  \<open>outputs\<close> and, unless \<open>outputs\<close> failed, \<open>getUtxos\<close>.
\<close>

definition start :: "args \<Rightarrow> (string \<Rightarrow> string + int) \<Rightarrow> state" where
  "start a parseAmount =
     (case validate a of
        Some e \<Rightarrow> fail e init
      | None \<Rightarrow> outputs a parseAmount (issue [GetChainFeeRate] [PFee] init))"

subsection \<open>Returns of the external calls\<close>

text \<open>
  An external call in flight returns with an error array or a value. The prompt's callback
  \<open>({inputs}) => cbk(null, inputs)\<close> has no error. A return for a call that is not in
  flight does not happen: \<open>deliver\<close> leaves the state as it is.
\<close>

datatype ret =
    FeeReturn "(int \<times> string) + int"
  | UtxosReturn "(int \<times> string) + utxo list"
  | AskReturn "string list"
  | FundReturn "(int \<times> string) + funded"
  | UnlockReturn nat "(int \<times> string) option"
  | SignReturn "(int \<times> string) + string"

fun pending_of :: "ret \<Rightarrow> pending" where
  "pending_of (FeeReturn r) = PFee"
| "pending_of (UtxosReturn r) = PUtxos"
| "pending_of (AskReturn r) = PAsk"
| "pending_of (FundReturn r) = PFund"
| "pending_of (UnlockReturn i r) = PUnlock i"
| "pending_of (SignReturn r) = PSign"

definition external :: "int \<times> string \<Rightarrow> error" where
  "external e = External (fst e) (snd e)"

text \<open>The callback of each call, run on a state from which the call has been removed.\<close>

fun callback :: "args \<Rightarrow> ret \<Rightarrow> state \<Rightarrow> state" where
  "callback a (FeeReturn (Inl e)) s = fail (external e) s"
| "callback a (FeeReturn (Inr q)) s =
     (if hasError s then s\<lparr>r_getFee := Some q\<rparr> else try_fund a (s\<lparr>r_getFee := Some q\<rparr>))"
| "callback a (UtxosReturn (Inl e)) s = fail (external e) s"
| "callback a (UtxosReturn (Inr us)) s =
     (if hasError s then s\<lparr>r_getUtxos := Some (Some us)\<rparr>
      else utxos a (Some us) (s\<lparr>r_getUtxos := Some (Some us)\<rparr>))"
| "callback a (AskReturn inputs) s =
     (if hasError s then s\<lparr>r_utxos := Some inputs\<rparr> else complete_utxos a inputs s)"
| "callback a (FundReturn (Inl e)) s = fail (external e) s"
| "callback a (FundReturn (Inr f)) s =
     (if hasError s then s\<lparr>r_fund := Some f\<rparr> else after_fund a f (s\<lparr>r_fund := Some f\<rparr>))"
| "callback a (UnlockReturn i (Some e)) s = fail (external e) s"
| "callback a (UnlockReturn i None) s =
     (let s' = s\<lparr>unlocked := Suc (unlocked s)\<rparr>
      in if unlocked s' = (case r_fund s of None \<Rightarrow> 0 | Some f \<Rightarrow> length (f_inputs f))
         then s'\<lparr>r_unlock := True\<rparr> else s')"
| "callback a (SignReturn (Inl e)) s = fail (external e) s"
| "callback a (SignReturn (Inr t)) s =
     (if hasError s then s\<lparr>r_sign := Some t\<rparr> else s\<lparr>r_sign := Some t, r_funded := Some t\<rparr>)"

definition deliver :: "args \<Rightarrow> state \<Rightarrow> ret \<Rightarrow> state" where
  "deliver a s r =
     (if pending_of r \<in> set (pendings s)
      then finish (callback a r (s\<lparr>pendings := removeAll (pending_of r) (pendings s)\<rparr>))
      else s)"

text \<open>One invocation: the start, then the returns in the order they arrive.\<close>

definition run :: "args \<Rightarrow> (string \<Rightarrow> string + int) \<Rightarrow> ret list \<Rightarrow> state" where
  "run a parseAmount rs = foldl (deliver a) (start a parseAmount) rs"

subsection \<open>The \<open>validate\<close> function of the prompt\<close>

text \<open>
  The function returns \<open>false\<close>, \<open>true\<close> or a message. Reading \<open>.tokens\<close> of the
  \<open>undefined\<close> that \<open>find\<close> returns for an unknown outpoint throws.
\<close>

datatype verdict = VFalse | VTrue | VMessage string | VThrows

fun selected_tokens :: "utxo list \<Rightarrow> string list \<Rightarrow> int list option" where
  "selected_tokens us [] = Some []"
| "selected_tokens us (x # xs) =
     (case find (\<lambda>n. asOutpoint (transaction_id n) (transaction_vout n) = x) us of
        None \<Rightarrow> None
      | Some n \<Rightarrow> (case selected_tokens us xs of None \<Rightarrow> None | Some ts \<Rightarrow> Some (tokens n # ts)))"

definition ask_validate :: "utxo list \<Rightarrow> int list \<Rightarrow> string list \<Rightarrow> verdict" where
  "ask_validate us amounts inputs =
     (if length inputs = 0 then VFalse
      else case selected_tokens us inputs of
        None \<Rightarrow> VThrows
      | Some ts \<Rightarrow>
          (let toks = sumOf ts;
               missingTok = asBigUnit (sumOf amounts - toks)
           in if toks < sumOf amounts
              then VMessage (''Selected '' @ asBigUnit toks @ '', need '' @ missingTok @ '' more'')
              else VTrue))"

subsection \<open>Kinds of calls, and the invariant of the task graph\<close>

fun is_unlock :: "call \<Rightarrow> bool" where
  "is_unlock (UnlockUtxo l t v) = True"
| "is_unlock c = False"

fun is_sign :: "call \<Rightarrow> bool" where
  "is_sign (SignPsbt p) = True"
| "is_sign c = False"

fun is_fund :: "call \<Rightarrow> bool" where
  "is_fund (FundPsbt p) = True"
| "is_fund c = False"

text \<open>The argument of the funding primitive for given results of the three tasks before it.\<close>

definition fund_call :: "args \<Rightarrow> int \<Rightarrow> tx_output list \<Rightarrow> string list \<Rightarrow> fund_args" where
  "fund_call a q outs us =
     \<lparr>fa_outputs = outs,
      fa_inputs = (if us = [] then None else Some (map asInput (map asUtxo us))),
      fa_fee_tokens_per_vbyte = fee_of (arg_fee_tokens_per_vbyte a) q\<rparr>"

text \<open>
  What holds of every state of an invocation: a call in flight has no result yet, the
  funding call waits for the fee and the coins, the unlock and sign calls wait for the
  funded transaction, and the calls issued are those of the results stored.
\<close>

definition wf :: "args \<Rightarrow> state \<Rightarrow> bool" where
  "wf a s \<longleftrightarrow>
     (PFee \<in> set (pendings s) \<longrightarrow> r_getFee s = None) \<and>
     (PAsk \<in> set (pendings s) \<longrightarrow> r_utxos s = None \<and> PUtxos \<notin> set (pendings s)) \<and>
     (PUtxos \<in> set (pendings s) \<longrightarrow> r_utxos s = None) \<and>
     (r_getFee s = None \<or> r_utxos s = None \<longrightarrow>
        PFund \<notin> set (pendings s) \<and> r_fund s = None \<and> filter is_fund (trace s) = []) \<and>
     (PFund \<in> set (pendings s) \<longrightarrow> \<not> hasError s \<and> r_fund s = None) \<and>
     (r_fund s = None \<longrightarrow>
        filter is_unlock (trace s) = [] \<and> filter is_sign (trace s) = [] \<and>
        (\<forall>i. PUnlock i \<notin> set (pendings s)) \<and> PSign \<notin> set (pendings s)) \<and>
     (\<forall>f. r_fund s = Some f \<longrightarrow>
        PFund \<notin> set (pendings s) \<and>
        filter is_unlock (trace s) = (if arg_is_dry_run a then map unlock_call (f_inputs f) else []) \<and>
        filter is_sign (trace s) = [SignPsbt (f_psbt f)]) \<and>
     (\<forall>fa. FundPsbt fa \<in> set (trace s) \<longrightarrow>
        r_getFee s \<noteq> None \<and> r_outputs s \<noteq> None \<and> r_utxos s \<noteq> None \<and>
        fa = fund_call a (the (r_getFee s)) (the (r_outputs s)) (the (r_utxos s)))"

subsection \<open>Notions used in the properties\<close>

text \<open>The canonical string of a coin the wallet lists.\<close>

definition outpoint_of :: "utxo \<Rightarrow> string" where
  "outpoint_of n = asOutpoint (transaction_id n) (transaction_vout n)"

text \<open>
  The explicit coin list of a request, the outputs a state has derived, the dust test of
  the task \<open>fund\<close>, and the kinds of failure of an invocation.
\<close>

fun is_ask :: "call \<Rightarrow> bool" where
  "is_ask (Ask cs) = True"
| "is_ask c = False"

definition given_utxos :: "args \<Rightarrow> string list" where
  "given_utxos a = (case arg_utxos a of None \<Rightarrow> [] | Some us \<Rightarrow> us)"

definition dusty :: "tx_output list \<Rightarrow> bool" where
  "dusty outs = (length (filter (\<lambda>n. out_tokens n < dustValue) outs) \<noteq> 0)"

fun failed :: "(error + string option) option \<Rightarrow> bool" where
  "failed (Some (Inl e)) = True"
| "failed r = False"

fun failed_external :: "(error + string option) option \<Rightarrow> bool" where
  "failed_external (Some (Inl (External c m))) = True"
| "failed_external r = False"

definition outs_of :: "state \<Rightarrow> tx_output list" where
  "outs_of s = (case r_outputs s of None \<Rightarrow> [] | Some outs \<Rightarrow> outs)"

text \<open>
  Further facts that hold of every state of an invocation: how the final callback is
  called, what a call still in flight after a failure means, when the dust check has run,
  where the coin list comes from, what an empty wallet leads to, that the fee rate is
  always queried, and which call is in flight while nothing has failed.
\<close>

definition inv_out :: "args \<Rightarrow> state \<Rightarrow> bool" where
  "inv_out a s \<longleftrightarrow>
     (\<not> hasError s \<and> pendings s \<noteq> [] \<longrightarrow> outcome s = None) \<and>
     (hasError s \<longrightarrow> failed (outcome s))"

definition inv_late :: "args \<Rightarrow> state \<Rightarrow> bool" where
  "inv_late a s \<longleftrightarrow>
     (hasError s \<and> PFee \<in> set (pendings s) \<longrightarrow>
        r_utxos s = None \<and> PUtxos \<notin> set (pendings s) \<and> PAsk \<notin> set (pendings s)) \<and>
     (hasError s \<and> (PUtxos \<in> set (pendings s) \<or> PAsk \<in> set (pendings s)) \<longrightarrow>
        r_getFee s = None \<and> PFee \<notin> set (pendings s) \<and> failed_external (outcome s))"

definition inv_dust :: "args \<Rightarrow> state \<Rightarrow> bool" where
  "inv_dust a s \<longleftrightarrow>
     (outcome s = Some (Inl DustOutput) \<longleftrightarrow>
        r_getFee s \<noteq> None \<and> r_utxos s \<noteq> None \<and> dusty (outs_of s)) \<and>
     (filter is_fund (trace s) \<noteq> [] \<longrightarrow> \<not> dusty (outs_of s))"

definition inv_sel :: "args \<Rightarrow> state \<Rightarrow> bool" where
  "inv_sel a s \<longleftrightarrow>
     (r_utxos s \<noteq> None \<or> pendings s \<noteq> [] \<longrightarrow> validate a = None) \<and>
     (PAsk \<in> set (pendings s) \<longrightarrow>
        given_utxos a = [] \<and> arg_is_selecting_utxos a \<and> filter is_ask (trace s) \<noteq> []) \<and>
     (PUtxos \<in> set (pendings s) \<longrightarrow>
        arg_is_selecting_utxos a \<and> r_getUtxos s = None \<and> filter is_ask (trace s) = []) \<and>
     (\<forall>us. r_utxos s = Some us \<longrightarrow>
        (given_utxos a \<noteq> [] \<longrightarrow> us = given_utxos a) \<and>
        (given_utxos a = [] \<and> \<not> arg_is_selecting_utxos a \<longrightarrow> us = [])) \<and>
     (arg_is_selecting_utxos a \<and> r_utxos s \<noteq> None \<longrightarrow> filter is_ask (trace s) \<noteq> [])"

definition inv_empty :: "args \<Rightarrow> state \<Rightarrow> bool" where
  "inv_empty a s \<longleftrightarrow>
     (r_getUtxos s = Some (Some []) \<longrightarrow>
        filter is_ask (trace s) = [] \<and>
        (outcome s = Some (Inl EmptyWallet) \<or>
         failed_external (outcome s) \<and> r_getFee s = None \<and> PFee \<notin> set (pendings s)))"

definition inv_fee :: "args \<Rightarrow> state \<Rightarrow> bool" where
  "inv_fee a s \<longleftrightarrow> (validate a = None \<longrightarrow> GetChainFeeRate \<in> set (trace s))"

definition inv_run :: "args \<Rightarrow> state \<Rightarrow> bool" where
  "inv_run a s \<longleftrightarrow>
     (\<not> hasError s \<longrightarrow> r_outputs s \<noteq> None \<and> r_funded s = r_sign s) \<and>
     (\<not> hasError s \<and> r_getFee s = None \<longrightarrow> PFee \<in> set (pendings s)) \<and>
     (\<not> hasError s \<and> r_utxos s = None \<longrightarrow> PUtxos \<in> set (pendings s) \<or> PAsk \<in> set (pendings s)) \<and>
     (\<not> hasError s \<and> r_getFee s \<noteq> None \<and> r_utxos s \<noteq> None \<and> r_fund s = None \<longrightarrow>
        PFund \<in> set (pendings s)) \<and>
     (\<not> hasError s \<and> r_fund s \<noteq> None \<and> r_sign s = None \<longrightarrow> PSign \<in> set (pendings s)) \<and>
     (\<forall>x. outcome s = Some (Inr x) \<longrightarrow> r_fund s \<noteq> None \<and> r_sign s \<noteq> None \<and> x = r_sign s)"

subsection \<open>Sample requests and capabilities\<close>

definition txid_ab :: string where
  "txid_ab = concat (replicate 32 ''ab'')"

definition request :: args where
  "request = \<lparr>arg_addresses = Some [''addr1''], arg_amounts = Some [''0.001''], arg_ask = True,
     arg_fee_tokens_per_vbyte = None, arg_is_dry_run = False, arg_is_selecting_utxos = False,
     arg_lnd = True, arg_utxos = Some []\<rparr>"

definition parse_100000 :: "string \<Rightarrow> string + int" where
  "parse_100000 amount = Inr 100000"

definition parse_200 :: "string \<Rightarrow> string + int" where
  "parse_200 amount = Inr 200"

definition funded_two :: funded where
  "funded_two = \<lparr>f_inputs =
       [\<lparr>fi_lock_id = ''lock1'', fi_transaction_id = txid_ab, fi_transaction_vout = 0\<rparr>,
        \<lparr>fi_lock_id = ''lock2'', fi_transaction_id = txid_ab, fi_transaction_vout = 1\<rparr>],
     f_outputs = [\<lparr>fo_is_change = False, fo_tokens = 100000\<rparr>, \<lparr>fo_is_change = True, fo_tokens = 5000\<rparr>],
     f_psbt = ''70736274ff''\<rparr>"

definition wallet_one :: "utxo list" where
  "wallet_one = [\<lparr>transaction_id = txid_ab, transaction_vout = 3, tokens = 500\<rparr>]"

definition request_dry :: args where
  "request_dry = request\<lparr>arg_is_dry_run := True\<rparr>"

definition returns_dry :: "ret list" where
  "returns_dry = [FeeReturn (Inr 5), FundReturn (Inr funded_two), SignReturn (Inr ''0200''),
     UnlockReturn 1 None, UnlockReturn 0 None]"

definition request_selecting :: args where
  "request_selecting = request\<lparr>arg_is_selecting_utxos := True\<rparr>"

definition request_explicit :: args where
  "request_explicit = request\<lparr>arg_utxos := Some [txid_ab @ '':0'']\<rparr>"

definition request_fee :: "int \<Rightarrow> args" where
  "request_fee f = request\<lparr>arg_fee_tokens_per_vbyte := Some f\<rparr>"

definition fee_error :: "int \<times> string" where
  "fee_error = (503, ''UnexpectedErrorGettingFeeRate'')"

section \<open>Properties\<close>

subsection \<open>Runs and invariants\<close>

lemma run_invariant:
  assumes "I (start a pa)"
    and "\<And>s r. I s \<Longrightarrow> I (deliver a s r)"
  shows "I (run a pa rs)"
proof -
  have "I s \<Longrightarrow> I (foldl (deliver a) s rs)" for s
    by (induction rs arbitrary: s) (simp_all add: assms(2))
  then show ?thesis unfolding run_def using assms(1) by blast
qed

lemma deliver_no_pending: "pendings s = [] \<Longrightarrow> deliver a s r = s"
  by (simp add: deliver_def)

lemma run_no_pending: "pendings (start a pa) = [] \<Longrightarrow> run a pa rs = start a pa"
  unfolding run_def by (induction rs) (simp_all add: deliver_no_pending)

subsection \<open>Validation\<close>

lemma validate_Precondition: "validate a = Some e \<Longrightarrow> \<exists>m. e = Precondition m"
  by (auto simp: validate_def split: if_splits option.splits)

lemma validate_length_mismatch:
  "arg_addresses a = Some ads \<Longrightarrow> arg_amounts a = Some ams \<Longrightarrow> length ads \<noteq> length ams
   \<Longrightarrow> validate a \<noteq> None"
  by (auto simp: validate_def)

lemma validate_both_selections:
  "arg_utxos a = Some us \<Longrightarrow> us \<noteq> [] \<Longrightarrow> arg_is_selecting_utxos a \<Longrightarrow> validate a \<noteq> None"
  by (auto simp: validate_def split: option.splits)

lemma start_invalid:
  "validate a = Some e \<Longrightarrow> start a pa = init\<lparr>hasError := True, outcome := Some (Inl e)\<rparr>"
  by (simp add: start_def fail_def init_def)

text \<open>
  C2. A request whose addresses and amounts differ in length, or that has both a non-empty
  explicit coin list and the interactive-selection flag, fails with a precondition error
  of code 400, and no external call is made: whatever returns are offered, the trace of
  calls stays empty.
\<close>

theorem validate_rejects_before_any_call:
  assumes "(\<exists>ads ams. arg_addresses a = Some ads \<and> arg_amounts a = Some ams \<and> length ads \<noteq> length ams)
         \<or> (\<exists>us. arg_utxos a = Some us \<and> us \<noteq> [] \<and> arg_is_selecting_utxos a)"
  shows "\<exists>m. outcome (run a parseAmount rs) = Some (Inl (Precondition m))
           \<and> fst (as_array (Precondition m)) = 400
           \<and> trace (run a parseAmount rs) = []"
proof -
  from assms have "validate a \<noteq> None"
    using validate_length_mismatch validate_both_selections by blast
  then obtain m where m: "validate a = Some (Precondition m)"
    using validate_Precondition by fastforce
  then have st: "start a parseAmount = init\<lparr>hasError := True, outcome := Some (Inl (Precondition m))\<rparr>"
    by (rule start_invalid)
  then have "run a parseAmount rs = start a parseAmount"
    by (intro run_no_pending) (simp add: init_def)
  with st show ?thesis by (simp add: init_def)
qed

theorem validate_rejects_before_any_call_witness:
  "arg_utxos (request\<lparr>arg_utxos := Some [txid_ab @ '':0''], arg_is_selecting_utxos := True\<rparr>)
     = Some [txid_ab @ '':0'']
   \<and> (\<exists>m. outcome (run (request\<lparr>arg_utxos := Some [txid_ab @ '':0''], arg_is_selecting_utxos := True\<rparr>)
                parse_100000 [FeeReturn (Inr 2)]) = Some (Inl (Precondition m))
          \<and> fst (as_array (Precondition m)) = 400
          \<and> trace (run (request\<lparr>arg_utxos := Some [txid_ab @ '':0''], arg_is_selecting_utxos := True\<rparr>)
                parse_100000 [FeeReturn (Inr 2)]) = [])"
proof -
  have h: "(\<exists>ads ams. arg_addresses (request\<lparr>arg_utxos := Some [txid_ab @ '':0''], arg_is_selecting_utxos := True\<rparr>) = Some ads
              \<and> arg_amounts (request\<lparr>arg_utxos := Some [txid_ab @ '':0''], arg_is_selecting_utxos := True\<rparr>) = Some ams
              \<and> length ads \<noteq> length ams)
         \<or> (\<exists>us. arg_utxos (request\<lparr>arg_utxos := Some [txid_ab @ '':0''], arg_is_selecting_utxos := True\<rparr>) = Some us
              \<and> us \<noteq> [] \<and> arg_is_selecting_utxos (request\<lparr>arg_utxos := Some [txid_ab @ '':0''], arg_is_selecting_utxos := True\<rparr>))"
    by (simp add: request_def)
  show ?thesis
    using validate_rejects_before_any_call [OF h, of parse_100000 "[FeeReturn (Inr 2)]"]
    by simp
qed

subsection \<open>The invariant holds of every run\<close>

lemma filter_unlock_calls [simp]: "filter is_unlock (map unlock_call xs) = map unlock_call xs"
  by (induction xs) (simp_all add: unlock_call_def)
lemma filter_sign_unlock_calls [simp]: "filter is_sign (map unlock_call xs) = []"
  by (induction xs) (simp_all add: unlock_call_def)
lemma filter_fund_unlock_calls [simp]: "filter is_fund (map unlock_call xs) = []"
  by (induction xs) (simp_all add: unlock_call_def)
lemma fund_not_unlock_call [simp]: "FundPsbt fa \<notin> set (map unlock_call xs)"
  by (induction xs) (simp_all add: unlock_call_def)
lemma PUnlock_misc [simp]:
  "PFund \<notin> set (map PUnlock ns)" "PFee \<notin> set (map PUnlock ns)"
  "PAsk \<notin> set (map PUnlock ns)" "PUtxos \<notin> set (map PUnlock ns)"
  "PSign \<notin> set (map PUnlock ns)"
  by (induction ns) simp_all

lemma derive_outputs_calls:
  "derive_outputs pa xs = (cs, r) \<Longrightarrow> list_all (\<lambda>c. \<exists>x. c = ParseAmount x) cs"
  by (induction pa xs arbitrary: cs r rule: derive_outputs.induct)
     (auto split: sum.splits prod.splits)

lemma filter_is_fund_empty: "filter is_fund cs = [] \<longleftrightarrow> (\<forall>fa. FundPsbt fa \<notin> set cs)"
  by (induction cs) (auto elim: is_fund.elims)

lemma derive_outputs_filters:
  assumes "derive_outputs pa xs = (cs, r)"
  shows "filter is_fund cs = []" "filter is_unlock cs = []" "filter is_sign cs = []"
    "FundPsbt fa \<notin> set cs"
  using derive_outputs_calls [OF assms] by (auto simp: filter_empty_conv list_all_iff)

lemmas task_defs = try_fund_def fund_def complete_utxos_def
  utxos_def after_fund_def unlock_def sign_def getUtxos_def outputs_def Let_def

lemma wf_start: "wf a (start a pa)"
proof (cases "validate a")
  case (Some e)
  then show ?thesis by (simp add: start_def wf_def init_def fail_def)
next
  case None
  obtain cs r where d: "derive_outputs pa (zip (case arg_addresses a of None \<Rightarrow> [] | Some ads \<Rightarrow> ads)
                  (case arg_amounts a of None \<Rightarrow> [] | Some ams \<Rightarrow> ams)) = (cs, r)"
    by (cases "derive_outputs pa (zip (case arg_addresses a of None \<Rightarrow> [] | Some ads \<Rightarrow> ads)
                  (case arg_amounts a of None \<Rightarrow> [] | Some ams \<Rightarrow> ams))") blast
  note f = derive_outputs_filters [OF d]
  show ?thesis
    using None d f
    by (cases r) (simp_all add: start_def wf_def init_def task_defs finish_def fail_def issue_def)
qed

lemma finish_fields [simp]:
  "trace (finish s) = trace s" "pendings (finish s) = pendings s" "hasError (finish s) = hasError s"
  "r_getFee (finish s) = r_getFee s" "r_outputs (finish s) = r_outputs s" "r_utxos (finish s) = r_utxos s"
  "r_fund (finish s) = r_fund s" "r_getUtxos (finish s) = r_getUtxos s"
  by (simp_all add: finish_def)

lemma fail_fields [simp]:
  "trace (fail e s) = trace s" "pendings (fail e s) = pendings s" "hasError (fail e s) = True"
  "r_getFee (fail e s) = r_getFee s" "r_outputs (fail e s) = r_outputs s" "r_utxos (fail e s) = r_utxos s"
  "r_fund (fail e s) = r_fund s" "r_getUtxos (fail e s) = r_getUtxos s"
  by (simp_all add: fail_def)

lemma issue_fields [simp]:
  "trace (issue cs ps s) = trace s @ cs" "pendings (issue cs ps s) = pendings s @ ps"
  "hasError (issue cs ps s) = hasError s"
  "r_getFee (issue cs ps s) = r_getFee s" "r_outputs (issue cs ps s) = r_outputs s"
  "r_utxos (issue cs ps s) = r_utxos s"
  "r_fund (issue cs ps s) = r_fund s" "r_getUtxos (issue cs ps s) = r_getUtxos s"
  by (simp_all add: issue_def)

lemma try_fund_result:
  "(try_fund a s = s \<and> (r_getFee s = None \<or> r_outputs s = None \<or> r_utxos s = None))
   \<or> (\<exists>q outs us. r_getFee s = Some q \<and> r_outputs s = Some outs \<and> r_utxos s = Some us \<and>
        (try_fund a s = fail DustOutput s \<or>
         try_fund a s = issue [LogFund (fee_of (arg_fee_tokens_per_vbyte a) q)
                                 (map (\<lambda>output. (out_address output, out_tokens output)) outs),
                               FundPsbt (fund_call a q outs us)] [PFund] s))"
  by (auto simp: try_fund_def fund_def fund_call_def Let_def split: option.splits)

lemma utxos_result:
  "(\<exists>xs. utxos a g s = try_fund a (s\<lparr>r_utxos := Some xs\<rparr>))
   \<or> utxos a g s = s \<or> utxos a g s = fail EmptyWallet s
   \<or> (\<exists>cs. utxos a g s = issue [Ask cs] [PAsk] s)"
  by (auto simp: utxos_def complete_utxos_def Let_def split: option.splits)

lemma wf_FeeL: "wf a s \<Longrightarrow> pending_of (FeeReturn (Inl e)) \<in> set (pendings s) \<Longrightarrow> wf a (deliver a s (FeeReturn (Inl e)))"
  by (auto simp: deliver_def wf_def external_def)

lemma wf_UtxL: "wf a s \<Longrightarrow> pending_of (UtxosReturn (Inl e)) \<in> set (pendings s) \<Longrightarrow> wf a (deliver a s (UtxosReturn (Inl e)))"
  by (auto simp: deliver_def wf_def external_def)

lemma wf_FundL: "wf a s \<Longrightarrow> pending_of (FundReturn (Inl e)) \<in> set (pendings s) \<Longrightarrow> wf a (deliver a s (FundReturn (Inl e)))"
  by (auto simp: deliver_def wf_def external_def)

lemma wf_UnlL: "wf a s \<Longrightarrow> pending_of (UnlockReturn i (Some e)) \<in> set (pendings s) \<Longrightarrow> wf a (deliver a s (UnlockReturn i (Some e)))"
  by (auto simp: deliver_def wf_def external_def)

lemma wf_SignL: "wf a s \<Longrightarrow> pending_of (SignReturn (Inl e)) \<in> set (pendings s) \<Longrightarrow> wf a (deliver a s (SignReturn (Inl e)))"
  by (auto simp: deliver_def wf_def external_def)

lemma wf_SignR: "wf a s \<Longrightarrow> pending_of (SignReturn (Inr t)) \<in> set (pendings s) \<Longrightarrow> wf a (deliver a s (SignReturn (Inr t)))"
  by (auto simp: deliver_def wf_def)

lemma wf_UnlR: "wf a s \<Longrightarrow> pending_of (UnlockReturn i None) \<in> set (pendings s) \<Longrightarrow> wf a (deliver a s (UnlockReturn i None))"
  by (auto simp: deliver_def wf_def Let_def)

lemma wf_FundR: "wf a s \<Longrightarrow> pending_of (FundReturn (Inr f)) \<in> set (pendings s) \<Longrightarrow> wf a (deliver a s (FundReturn (Inr f)))"
  by (auto simp: deliver_def wf_def after_fund_def unlock_def sign_def Let_def unlock_call_def)

lemma wf_FeeR:
  assumes w: "wf a s" and p: "pending_of (FeeReturn (Inr q)) \<in> set (pendings s)"
  shows "wf a (deliver a s (FeeReturn (Inr q)))"
proof (cases "hasError s")
  case True
  then show ?thesis using w p by (auto simp: deliver_def wf_def)
next
  case False
  define t where "t = s\<lparr>pendings := removeAll PFee (pendings s), r_getFee := Some q\<rparr>"
  have d: "deliver a s (FeeReturn (Inr q)) = finish (try_fund a t)"
    using False p by (simp add: deliver_def t_def)
  have nf: "FundPsbt fa \<notin> set (trace s)" for fa
    using w p by (auto simp: wf_def filter_is_fund_empty)
  have g: "r_getFee s = None" "PFund \<notin> set (pendings s)" "r_fund s = None"
    using w p by (auto simp: wf_def)
  from try_fund_result [of a t] consider
      (same) "try_fund a t = t"
    | (dust) "try_fund a t = fail DustOutput t"
    | (iss) q' outs us where "r_getFee t = Some q'" "r_outputs t = Some outs" "r_utxos t = Some us"
        "try_fund a t = issue [LogFund (fee_of (arg_fee_tokens_per_vbyte a) q')
                                 (map (\<lambda>output. (out_address output, out_tokens output)) outs),
                               FundPsbt (fund_call a q' outs us)] [PFund] t"
    by blast
  then show ?thesis
  proof cases
    case same
    then show ?thesis using w p nf g unfolding d by (auto simp: wf_def t_def)
  next
    case dust
    then show ?thesis using w p nf g unfolding d by (auto simp: wf_def t_def)
  next
    case iss
    then show ?thesis using w p nf g False unfolding d by (auto simp: wf_def t_def)
  qed
qed

lemma wf_Ask:
  assumes w: "wf a s" and p: "pending_of (AskReturn xs) \<in> set (pendings s)"
  shows "wf a (deliver a s (AskReturn xs))"
proof (cases "hasError s")
  case True
  then show ?thesis using w p by (auto simp: deliver_def wf_def)
next
  case False
  define t where "t = s\<lparr>pendings := removeAll PAsk (pendings s), r_utxos := Some xs\<rparr>"
  have d: "deliver a s (AskReturn xs) = finish (try_fund a t)"
    using False p by (simp add: deliver_def t_def complete_utxos_def)
  from try_fund_result [of a t] consider
      (same) "try_fund a t = t"
    | (dust) "try_fund a t = fail DustOutput t"
    | (iss) q' outs us where "r_getFee t = Some q'" "r_outputs t = Some outs" "r_utxos t = Some us"
        "try_fund a t = issue [LogFund (fee_of (arg_fee_tokens_per_vbyte a) q')
                                 (map (\<lambda>output. (out_address output, out_tokens output)) outs),
                               FundPsbt (fund_call a q' outs us)] [PFund] t"
    by blast
  then show ?thesis
  proof cases
    case same
    then show ?thesis using w p unfolding d by (auto simp: wf_def t_def)
  next
    case dust
    then show ?thesis using w p unfolding d by (auto simp: wf_def t_def)
  next
    case iss
    then show ?thesis using w p False unfolding d by (auto simp: wf_def t_def)
  qed
qed

lemma wf_UtxR:
  assumes w: "wf a s" and p: "pending_of (UtxosReturn (Inr g)) \<in> set (pendings s)"
  shows "wf a (deliver a s (UtxosReturn (Inr g)))"
proof (cases "hasError s")
  case True
  then show ?thesis using w p by (auto simp: deliver_def wf_def)
next
  case False
  define t where "t = s\<lparr>pendings := removeAll PUtxos (pendings s), r_getUtxos := Some (Some g)\<rparr>"
  have d: "deliver a s (UtxosReturn (Inr g)) = finish (utxos a (Some g) t)"
    using False p by (simp add: deliver_def t_def)
  from utxos_result [of a "Some g" t] consider
      (compl) xs where "utxos a (Some g) t = try_fund a (t\<lparr>r_utxos := Some xs\<rparr>)"
    | (same) "utxos a (Some g) t = t"
    | (empty) "utxos a (Some g) t = fail EmptyWallet t"
    | (ask) cs where "utxos a (Some g) t = issue [Ask cs] [PAsk] t"
    by blast
  then show ?thesis
  proof cases
    case same
    then show ?thesis using w p unfolding d by (auto simp: wf_def t_def)
  next
    case empty
    then show ?thesis using w p unfolding d by (auto simp: wf_def t_def)
  next
    case ask
    then show ?thesis using w p unfolding d by (auto simp: wf_def t_def)
  next
    case compl
    define u where "u = t\<lparr>r_utxos := Some xs\<rparr>"
    from try_fund_result [of a u] consider
        (same) "try_fund a u = u"
      | (dust) "try_fund a u = fail DustOutput u"
      | (iss) q' outs us where "r_getFee u = Some q'" "r_outputs u = Some outs" "r_utxos u = Some us"
          "try_fund a u = issue [LogFund (fee_of (arg_fee_tokens_per_vbyte a) q')
                                   (map (\<lambda>output. (out_address output, out_tokens output)) outs),
                                 FundPsbt (fund_call a q' outs us)] [PFund] u"
      by blast
    then show ?thesis
    proof cases
      case same
      then show ?thesis using w p compl unfolding d u_def [symmetric] by (auto simp: wf_def t_def u_def)
    next
      case dust
      then show ?thesis using w p compl unfolding d u_def [symmetric] by (auto simp: wf_def t_def u_def)
    next
      case iss
      then show ?thesis using w p compl False unfolding d u_def [symmetric] by (auto simp: wf_def t_def u_def)
    qed
  qed
qed

lemma wf_deliver: "wf a s \<Longrightarrow> wf a (deliver a s r)"
proof (cases "pending_of r \<in> set (pendings s)")
  case False
  assume "wf a s"
  with False show ?thesis by (simp add: deliver_def)
next
  case True
  assume w: "wf a s"
  show ?thesis
  proof (cases r)
    case (FeeReturn x)
    with w True show ?thesis by (cases x) (simp_all add: wf_FeeL wf_FeeR)
  next
    case (UtxosReturn x)
    with w True show ?thesis by (cases x) (simp_all add: wf_UtxL wf_UtxR)
  next
    case (AskReturn x)
    with w True show ?thesis by (simp add: wf_Ask)
  next
    case (FundReturn x)
    with w True show ?thesis by (cases x) (simp_all add: wf_FundL wf_FundR)
  next
    case (UnlockReturn i x)
    with w True show ?thesis by (cases x) (simp_all add: wf_UnlR wf_UnlL)
  next
    case (SignReturn x)
    with w True show ?thesis by (cases x) (simp_all add: wf_SignL wf_SignR)
  qed
qed

lemma wf_run: "wf a (run a pa rs)"
  by (rule run_invariant) (simp_all add: wf_start wf_deliver)

subsection \<open>Decimal numerals and outpoint strings\<close>

lemma digits_table:
  "list_all (\<lambda>d. digit_val (digit_char d) = d \<and> is_digit (digit_char d)) [0 ..< 10]"
  by (simp add: upt_rec digit_val_def digit_char_def is_digit_def)

lemma digit_val_digit_char: "d < 10 \<Longrightarrow> digit_val (digit_char d) = d"
  using digits_table unfolding list_all_iff by simp

lemma is_digit_digit_char: "is_digit (digit_char d)"
proof -
  have "is_digit (digit_char (d mod 10))"
    using digits_table unfolding list_all_iff by simp
  then show ?thesis by (simp add: digit_char_def)
qed

lemma dec_value_snoc: "dec_value (s @ [c]) = 10 * dec_value s + digit_val c"
  by (simp add: dec_value_def)

lemma show_nat_digits: "list_all is_digit (show_nat n) \<and> show_nat n \<noteq> []"
proof (induction n rule: show_nat.induct)
  case (1 n)
  show ?case
  proof (cases "n < 10")
    case True
    then show ?thesis by (simp add: show_nat.simps [of n] is_digit_digit_char)
  next
    case False
    with 1 show ?thesis by (simp add: show_nat.simps [of n] is_digit_digit_char)
  qed
qed

lemma digit_char_mod: "digit_char n = digit_char (n mod 10)"
  by (simp add: digit_char_def)

lemma dec_value_show_nat: "dec_value (show_nat n) = n"
proof (induction n rule: show_nat.induct)
  case (1 n)
  show ?case
  proof (cases "n < 10")
    case True
    then show ?thesis by (simp add: show_nat.simps [of n] dec_value_def digit_val_digit_char)
  next
    case False
    have "digit_val (digit_char n) = n mod 10"
      using digit_val_digit_char [of "n mod 10"] digit_char_mod [of n] by simp
    with False 1 show ?thesis
      by (simp add: show_nat.simps [of n] dec_value_snoc)
  qed
qed

lemma Number_js_show_nat: "Number_js (show_nat n) = Some n"
  using show_nat_digits [of n] by (simp add: Number_js_def dec_value_show_nat)

lemma asUtxo_asOutpoint:
  "length tid = 64 \<Longrightarrow> asUtxo (asOutpoint tid v) = \<lparr>p_id = tid, p_vout = Some v\<rparr>"
  by (simp add: asUtxo_def asOutpoint_def Number_js_show_nat)

lemma digit_val_le: "digit_val c \<le> 9"
proof -
  have "digit_val c < 10" by (simp add: digit_val_def)
  then show ?thesis by simp
qed

lemma dec_value_bound: "dec_value s < 10 ^ length s"
proof (induction s rule: rev_induct)
  case Nil
  then show ?case by (simp add: dec_value_def)
next
  case (snoc c s)
  have "dec_value (s @ [c]) = 10 * dec_value s + digit_val c" by (rule dec_value_snoc)
  also have "\<dots> < 10 ^ length (s @ [c])"
    using snoc digit_val_le [of c] by simp
  finally show ?case .
qed

lemma show_nat_length: "n < 10 ^ k \<Longrightarrow> 0 < k \<Longrightarrow> length (show_nat n) \<le> k"
proof (induction n arbitrary: k rule: show_nat.induct)
  case (1 n)
  show ?case
  proof (cases "n < 10")
    case True
    with 1(3) show ?thesis by (simp add: show_nat.simps [of n])
  next
    case False
    then obtain j where k: "k = Suc j" using 1(3) by (cases k) auto
    have "j \<noteq> 0" using False 1(2) k by (cases j) auto
    moreover have "n div 10 < 10 ^ j" using 1(2) k by (simp add: less_mult_imp_div_less mult.commute)
    ultimately have "length (show_nat (n div 10)) \<le> j" using 1(1) [OF False, of j] by simp
    with False k show ?thesis by (simp add: show_nat.simps [of n])
  qed
qed

lemma isOutpoint_asOutpoint:
  assumes "isOutpoint n"
  shows "isOutpoint (asOutpoint (take 64 n) (dec_value (drop 65 n)))"
proof -
  let ?v = "dec_value (drop 65 n)"
  from assms have len: "66 \<le> length n" "length n \<le> 71" and hex: "list_all is_hex (take 64 n)"
    by (simp_all add: isOutpoint_def)
  have "?v < 10 ^ length (drop 65 n)" by (rule dec_value_bound)
  also have "\<dots> \<le> 10 ^ 6" using len by (intro power_increasing) simp_all
  finally have "?v < 10 ^ 6" .
  then have l: "length (show_nat ?v) \<le> 6" by (intro show_nat_length) simp_all
  have l0: "Suc 0 \<le> length (show_nat ?v)"
    using show_nat_digits [of ?v] by (cases "show_nat ?v") simp_all
  have t: "length (take 64 n) = 64" using len by simp
  show ?thesis
    using l l0 hex show_nat_digits [of ?v] t len
    by (simp add: isOutpoint_def asOutpoint_def nth_append)
qed

subsection \<open>The prompt's validation\<close>

lemma sumOf_sum_list: "sumOf xs = sum_list xs"
proof -
  have "foldl (\<lambda>sum n. sum + n) a xs = a + sum_list xs" for a :: int
    by (induction xs arbitrary: a) simp_all
  then show ?thesis by (simp add: sumOf_def)
qed

lemma find_outpoint:
  assumes "distinct (map outpoint_of us)" "n \<in> set us"
  shows "find (\<lambda>m. asOutpoint (transaction_id m) (transaction_vout m) = outpoint_of n) us = Some n"
  using assms
proof (induction us)
  case Nil
  then show ?case by simp
next
  case (Cons u us)
  show ?case
  proof (cases "outpoint_of u = outpoint_of n")
    case True
    with Cons.prems have "u = n" by (auto simp: image_iff)
    then show ?thesis by (simp add: outpoint_of_def)
  next
    case False
    with Cons show ?thesis by (auto simp: outpoint_of_def)
  qed
qed

lemma selected_tokens_subset:
  assumes "distinct (map outpoint_of us)" "set sel \<subseteq> set us"
  shows "selected_tokens us (map outpoint_of sel) = Some (map tokens sel)"
  using assms(2)
proof (induction sel)
  case Nil
  then show ?case by simp
next
  case (Cons n sel)
  then have "n \<in> set us" by simp
  from find_outpoint [OF assms(1) this] Cons show ?case by simp
qed

lemma length_pad8: "length s \<le> 8 \<Longrightarrow> length (pad8 s) = 8"
  by (simp add: pad8_def)

lemma dec_value_append_zeros: "dec_value (replicate k CHR ''0'' @ s) = dec_value s"
proof -
  have z: "digit_val CHR ''0'' = 0" by (simp add: digit_val_def)
  have "foldl (\<lambda>a c. 10 * a + digit_val c) 0 (replicate k CHR ''0'') = 0"
    by (induction k) (simp_all add: z)
  then show ?thesis by (simp add: dec_value_def)
qed

lemma is_digit_zero: "is_digit CHR ''0''"
  by (simp add: is_digit_def)

lemma asBigUnit_value:
  assumes "0 \<le> n"
  shows "\<exists>whole frac. asBigUnit n = whole @ ''.'' @ frac \<and> length frac = 8
           \<and> list_all is_digit whole \<and> whole \<noteq> [] \<and> list_all is_digit frac
           \<and> int (dec_value whole) * 10 ^ 8 + int (dec_value frac) = n"
proof -
  let ?m = "nat n"
  let ?w = "show_nat (?m div 10 ^ 8)" and ?f = "pad8 (show_nat (?m mod 10 ^ 8))"
  have a: "asBigUnit n = ?w @ ''.'' @ ?f"
    using assms by (simp add: asBigUnit_def Let_def)
  have "length (show_nat (?m mod 10 ^ 8)) \<le> 8"
    by (intro show_nat_length) simp_all
  then have l: "length ?f = 8" by (rule length_pad8)
  have d: "list_all is_digit ?f"
    using show_nat_digits [of "?m mod 10 ^ 8"] by (auto simp: pad8_def is_digit_zero list_all_iff)
  have v: "dec_value ?f = ?m mod 10 ^ 8"
    by (simp add: pad8_def dec_value_append_zeros dec_value_show_nat)
  have "?m div 10 ^ 8 * 10 ^ 8 + ?m mod 10 ^ 8 = ?m"
    by (rule div_mult_mod_eq)
  then have "int (?m div 10 ^ 8 * 10 ^ 8 + ?m mod 10 ^ 8) = int ?m"
    by (rule arg_cong)
  then have "int (?m div 10 ^ 8) * 10 ^ 8 + int (?m mod 10 ^ 8) = n"
    using assms by (simp only: of_nat_add of_nat_mult of_nat_power of_nat_numeral nat_0_le)
  then have e: "int (dec_value ?w) * 10 ^ 8 + int (dec_value ?f) = n"
    by (simp only: v dec_value_show_nat)
  have w: "list_all is_digit ?w \<and> ?w \<noteq> []" by (rule show_nat_digits)
  show ?thesis
  proof (intro exI conjI)
    show "asBigUnit n = ?w @ ''.'' @ ?f" by (rule a)
    show "length ?f = 8" by (rule l)
    show "list_all is_digit ?w" using w by simp
    show "?w \<noteq> []" using w by simp
    show "list_all is_digit ?f" by (rule d)
    show "int (dec_value ?w) * 10 ^ 8 + int (dec_value ?f) = n" by (rule e)
  qed
qed

lemma show_nat_small: "n < 10 \<Longrightarrow> show_nat n = [digit_char n]"
  by (simp add: show_nat.simps)

lemma show_nat_large: "\<not> n < 10 \<Longrightarrow> show_nat n = show_nat (n div 10) @ [digit_char n]"
  by (simp add: show_nat.simps [of n])

lemmas display_simps = asBigUnit_def Let_def show_nat_small show_nat_large pad8_def digit_char_def

subsection \<open>Case analysis of the tasks\<close>

lemma more_fields [simp]:
  "r_sign (finish s) = r_sign s" "r_funded (finish s) = r_funded s"
  "r_sign (fail e s) = r_sign s" "r_funded (fail e s) = r_funded s"
  "r_sign (issue cs ps s) = r_sign s" "r_funded (issue cs ps s) = r_funded s"
  by (simp_all add: finish_def fail_def issue_def)

lemma removeAll_Nil_D: "removeAll y xs = [] \<Longrightarrow> x \<in> set xs \<Longrightarrow> x = y"
  by (induction xs) (auto split: if_splits)

lemma outcome_finish [simp]:
  "outcome (finish s) = Some r \<longleftrightarrow>
     outcome s = Some r \<or> (\<not> hasError s \<and> pendings s = [] \<and> outcome s = None \<and> r = Inr (r_funded s))"
  "outcome (finish s) = None \<longleftrightarrow> outcome s = None \<and> (hasError s \<or> pendings s \<noteq> [])"
  "failed (outcome (finish s)) \<longleftrightarrow> failed (outcome s)"
  "failed_external (outcome (finish s)) \<longleftrightarrow> failed_external (outcome s)"
  by (auto simp: finish_def)

lemma outcome_fail [simp]:
  "outcome (fail e s) = Some r \<longleftrightarrow> outcome s = Some r \<or> (outcome s = None \<and> r = Inl e)"
  "outcome (fail e s) \<noteq> None"
  "failed (outcome (fail e s)) \<longleftrightarrow> outcome s = None \<or> failed (outcome s)"
  "failed_external (outcome (fail (External c m) s)) \<longleftrightarrow> outcome s = None \<or> failed_external (outcome s)"
  "failed_external (outcome (fail DustOutput s)) \<longleftrightarrow> failed_external (outcome s)"
  "failed_external (outcome (fail EmptyWallet s)) \<longleftrightarrow> failed_external (outcome s)"
  by (auto simp: fail_def split: option.splits)

lemma failed_simps:
  "failed_external r \<Longrightarrow> failed r"
  "failed_external r \<Longrightarrow> r \<noteq> Some (Inl DustOutput)"
  "failed_external r \<Longrightarrow> r \<noteq> Some (Inl EmptyWallet)"
  "failed_external r \<Longrightarrow> r \<noteq> None"
  "failed r \<Longrightarrow> r \<noteq> None"
  by (auto elim: failed_external.elims failed.elims)

lemma outcome_issue [simp]: "outcome (issue cs ps s) = outcome s"
  by (simp add: issue_def)

lemma outs_of_fields [simp]:
  "outs_of (finish s) = outs_of s" "outs_of (fail e s) = outs_of s" "outs_of (issue cs ps s) = outs_of s"
  "outs_of (s\<lparr>pendings := ps\<rparr>) = outs_of s" "outs_of (s\<lparr>r_getFee := x1\<rparr>) = outs_of s"
  "outs_of (s\<lparr>r_utxos := x2\<rparr>) = outs_of s" "outs_of (s\<lparr>r_getUtxos := x3\<rparr>) = outs_of s"
  "outs_of (s\<lparr>r_fund := x4\<rparr>) = outs_of s" "outs_of (s\<lparr>r_sign := x5\<rparr>) = outs_of s"
  "outs_of (s\<lparr>r_funded := x6\<rparr>) = outs_of s" "outs_of (s\<lparr>r_unlock := x7\<rparr>) = outs_of s"
  "outs_of (s\<lparr>unlocked := x8\<rparr>) = outs_of s" "outs_of (s\<lparr>trace := x9\<rparr>) = outs_of s"
  "outs_of (s\<lparr>r_outputs := Some outs\<rparr>) = outs"
  by (simp_all add: outs_of_def finish_def fail_def issue_def)

lemma dusty_Nil [simp]: "\<not> dusty []"
  by (simp add: dusty_def)

lemma dusty_no_outputs [simp]: "r_outputs s = None \<Longrightarrow> \<not> dusty (outs_of s)"
  by (simp add: outs_of_def)

lemma outs_of_Some [simp]: "r_outputs s = Some outs \<Longrightarrow> outs_of s = outs"
  by (simp add: outs_of_def)

lemma filter_ask_unlock_calls [simp]: "filter is_ask (map unlock_call xs) = []"
  by (induction xs) (simp_all add: unlock_call_def)

lemma GetChainFeeRate_unlock_calls [simp]: "GetChainFeeRate \<notin> set (map unlock_call xs)"
  by (induction xs) (simp_all add: unlock_call_def)

lemma try_fund_cases [case_names same dust iss]:
  obtains
    (same) "try_fund a s = s" "r_getFee s = None \<or> r_outputs s = None \<or> r_utxos s = None"
  | (dust) q outs us where "r_getFee s = Some q" "r_outputs s = Some outs" "r_utxos s = Some us"
      "dusty outs" "try_fund a s = fail DustOutput s"
  | (iss) q outs us where "r_getFee s = Some q" "r_outputs s = Some outs" "r_utxos s = Some us"
      "\<not> dusty outs"
      "try_fund a s = issue [LogFund (fee_of (arg_fee_tokens_per_vbyte a) q)
                               (map (\<lambda>output. (out_address output, out_tokens output)) outs),
                             FundPsbt (fund_call a q outs us)] [PFund] s"
proof (cases "r_getFee s")
  case None
  then show ?thesis using same by (simp add: try_fund_def)
next
  case q: (Some q)
  show ?thesis
  proof (cases "r_outputs s")
    case None
    then show ?thesis using same q by (simp add: try_fund_def)
  next
    case outs: (Some outs)
    show ?thesis
    proof (cases "r_utxos s")
      case None
      then show ?thesis using same q outs by (simp add: try_fund_def)
    next
      case us: (Some us)
      show ?thesis
      proof (cases "dusty outs")
        case True
        then show ?thesis using dust [OF q outs us]
          by (simp add: try_fund_def fund_def dusty_def q outs us)
      next
        case False
        then show ?thesis using iss [OF q outs us]
          by (simp add: try_fund_def fund_def dusty_def fund_call_def Let_def q outs us)
      qed
    qed
  qed
qed

lemma utxos_cases [case_names explicit auto_select empty ask]:
  obtains
    (explicit) "given_utxos a \<noteq> []" "utxos a (Some g) s = try_fund a (s\<lparr>r_utxos := Some (given_utxos a)\<rparr>)"
  | (auto_select) "given_utxos a = []" "\<not> arg_is_selecting_utxos a"
      "utxos a (Some g) s = try_fund a (s\<lparr>r_utxos := Some []\<rparr>)"
  | (empty) "given_utxos a = []" "arg_is_selecting_utxos a" "g = []" "utxos a (Some g) s = fail EmptyWallet s"
  | (ask) "given_utxos a = []" "arg_is_selecting_utxos a" "g \<noteq> []"
      "utxos a (Some g) s = issue [Ask (choices_of g)] [PAsk] s"
  by (cases "given_utxos a = []"; cases "arg_is_selecting_utxos a"; cases "g = []")
     (simp_all add: utxos_def complete_utxos_def given_utxos_def Let_def)

lemma wf_PFee:
  assumes "wf a s" "PFee \<in> set (pendings s)"
  shows "r_getFee s = None \<and> PFund \<notin> set (pendings s) \<and> r_fund s = None \<and>
    filter is_fund (trace s) = [] \<and> filter is_unlock (trace s) = [] \<and> filter is_sign (trace s) = [] \<and>
    (\<forall>i. PUnlock i \<notin> set (pendings s)) \<and> PSign \<notin> set (pendings s)"
  using assms by (simp add: wf_def)

lemma wf_PUtxos:
  assumes "wf a s" "PUtxos \<in> set (pendings s)"
  shows "r_utxos s = None \<and> PAsk \<notin> set (pendings s) \<and> PFund \<notin> set (pendings s) \<and> r_fund s = None \<and>
    filter is_fund (trace s) = [] \<and> filter is_unlock (trace s) = [] \<and> filter is_sign (trace s) = [] \<and>
    (\<forall>i. PUnlock i \<notin> set (pendings s)) \<and> PSign \<notin> set (pendings s)"
  using assms by (auto simp: wf_def)

lemma wf_PAsk:
  assumes "wf a s" "PAsk \<in> set (pendings s)"
  shows "r_utxos s = None \<and> PUtxos \<notin> set (pendings s) \<and> PFund \<notin> set (pendings s) \<and> r_fund s = None \<and>
    filter is_fund (trace s) = [] \<and> filter is_unlock (trace s) = [] \<and> filter is_sign (trace s) = [] \<and>
    (\<forall>i. PUnlock i \<notin> set (pendings s)) \<and> PSign \<notin> set (pendings s)"
  using assms by (simp add: wf_def)

lemma wf_PFund:
  assumes "wf a s" "PFund \<in> set (pendings s)"
  shows "\<not> hasError s \<and> r_fund s = None \<and> r_getFee s \<noteq> None \<and> r_utxos s \<noteq> None \<and>
    PFee \<notin> set (pendings s) \<and> PAsk \<notin> set (pendings s) \<and> PUtxos \<notin> set (pendings s) \<and>
    filter is_unlock (trace s) = [] \<and> filter is_sign (trace s) = [] \<and>
    (\<forall>i. PUnlock i \<notin> set (pendings s)) \<and> PSign \<notin> set (pendings s)"
  using assms by (auto simp: wf_def)

lemma wf_PUnlock:
  assumes "wf a s" "PUnlock n \<in> set (pendings s)"
  shows "r_fund s \<noteq> None \<and> r_getFee s \<noteq> None \<and> r_utxos s \<noteq> None \<and> PFund \<notin> set (pendings s) \<and>
    PFee \<notin> set (pendings s) \<and> PAsk \<notin> set (pendings s) \<and> PUtxos \<notin> set (pendings s)"
  using assms by (auto simp: wf_def)

lemma wf_PSign:
  assumes "wf a s" "PSign \<in> set (pendings s)"
  shows "r_fund s \<noteq> None \<and> r_getFee s \<noteq> None \<and> r_utxos s \<noteq> None \<and> PFund \<notin> set (pendings s) \<and>
    PFee \<notin> set (pendings s) \<and> PAsk \<notin> set (pendings s) \<and> PUtxos \<notin> set (pendings s)"
  using assms by (auto simp: wf_def)

lemma wf_results:
  assumes "wf a s"
  shows "r_utxos s \<noteq> None \<longrightarrow> PUtxos \<notin> set (pendings s) \<and> PAsk \<notin> set (pendings s)"
    and "r_getFee s \<noteq> None \<longrightarrow> PFee \<notin> set (pendings s)"
    and "r_fund s \<noteq> None \<longrightarrow> r_getFee s \<noteq> None \<and> r_utxos s \<noteq> None"
proof -
  from assms have 1: "PFee \<in> set (pendings s) \<longrightarrow> r_getFee s = None"
    and 2: "PAsk \<in> set (pendings s) \<longrightarrow> r_utxos s = None"
    and 3: "PUtxos \<in> set (pendings s) \<longrightarrow> r_utxos s = None"
    and 4: "r_getFee s = None \<or> r_utxos s = None \<longrightarrow> r_fund s = None"
    by (simp_all add: wf_def)
  show "r_utxos s \<noteq> None \<longrightarrow> PUtxos \<notin> set (pendings s) \<and> PAsk \<notin> set (pendings s)"
    using 2 3 by auto
  show "r_getFee s \<noteq> None \<longrightarrow> PFee \<notin> set (pendings s)"
    using 1 by auto
  show "r_fund s \<noteq> None \<longrightarrow> r_getFee s \<noteq> None \<and> r_utxos s \<noteq> None"
    using 4 by auto
qed

lemma inv_out_None:
  "inv_out a s \<Longrightarrow> \<not> hasError s \<Longrightarrow> pendings s \<noteq> [] \<Longrightarrow> outcome s = None"
  by (simp add: inv_out_def)

lemma inv_out_failed: "inv_out a s \<Longrightarrow> hasError s \<Longrightarrow> failed (outcome s)"
  by (simp add: inv_out_def)

lemma inv_late_PFee:
  "inv_late a s \<Longrightarrow> hasError s \<Longrightarrow> PFee \<in> set (pendings s) \<Longrightarrow> r_utxos s = None"
  by (simp add: inv_late_def)

lemma inv_late_PUtxos:
  "inv_late a s \<Longrightarrow> hasError s \<Longrightarrow> PUtxos \<in> set (pendings s)
   \<Longrightarrow> r_getFee s = None \<and> failed_external (outcome s) \<and> PFee \<notin> set (pendings s)"
  by (simp add: inv_late_def)

lemma inv_late_PAsk:
  "inv_late a s \<Longrightarrow> hasError s \<Longrightarrow> PAsk \<in> set (pendings s)
   \<Longrightarrow> r_getFee s = None \<and> failed_external (outcome s)"
  by (simp add: inv_late_def)

lemma inv_sel_validate: "inv_sel a s \<Longrightarrow> pendings s \<noteq> [] \<Longrightarrow> validate a = None"
  by (simp add: inv_sel_def)

lemma inv_sel_PUtxos:
  "inv_sel a s \<Longrightarrow> PUtxos \<in> set (pendings s)
   \<Longrightarrow> arg_is_selecting_utxos a \<and> r_getUtxos s = None \<and> filter is_ask (trace s) = []"
  by (simp add: inv_sel_def)

lemma inv_sel_getUtxos:
  "inv_sel a s \<Longrightarrow> r_getUtxos s \<noteq> None \<Longrightarrow> PUtxos \<notin> set (pendings s)"
  by (auto simp: inv_sel_def)

lemma validate_selecting_given:
  "validate a = None \<Longrightarrow> arg_is_selecting_utxos a \<Longrightarrow> given_utxos a = []"
  by (auto simp: validate_def given_utxos_def split: option.splits if_splits)

subsection \<open>The final callback\<close>

lemma inv_out_FeeL:
  assumes i: "inv_out a s" and w: "wf a s"
    and p: "pending_of (FeeReturn (Inl e)) \<in> set (pendings s)"
  shows "inv_out a (deliver a s (FeeReturn (Inl e)))"
proof -
  have pp: "PFee \<in> set (pendings s)" using p by simp
  have ne: "pendings s \<noteq> []" using p by auto
  note g = wf_PFee [OF w pp] wf_results [OF w] 
  show ?thesis
    using i g pp ne 
    by (cases "hasError s")
       (auto simp: deliver_def inv_out_def external_def after_fund_def unlock_def sign_def Let_def unlock_call_def)
qed

lemma inv_out_UtxL:
  assumes i: "inv_out a s" and w: "wf a s"
    and p: "pending_of (UtxosReturn (Inl e)) \<in> set (pendings s)"
  shows "inv_out a (deliver a s (UtxosReturn (Inl e)))"
proof -
  have pp: "PUtxos \<in> set (pendings s)" using p by simp
  have ne: "pendings s \<noteq> []" using p by auto
  note g = wf_PUtxos [OF w pp] wf_results [OF w] 
  show ?thesis
    using i g pp ne 
    by (cases "hasError s")
       (auto simp: deliver_def inv_out_def external_def after_fund_def unlock_def sign_def Let_def unlock_call_def)
qed

lemma inv_out_FundL:
  assumes i: "inv_out a s" and w: "wf a s"
    and p: "pending_of (FundReturn (Inl e)) \<in> set (pendings s)"
  shows "inv_out a (deliver a s (FundReturn (Inl e)))"
proof -
  have pp: "PFund \<in> set (pendings s)" using p by simp
  have ne: "pendings s \<noteq> []" using p by auto
  note g = wf_PFund [OF w pp] wf_results [OF w] 
  show ?thesis
    using i g pp ne 
    by (cases "hasError s")
       (auto simp: deliver_def inv_out_def external_def after_fund_def unlock_def sign_def Let_def unlock_call_def)
qed

lemma inv_out_UnlL:
  assumes i: "inv_out a s" and w: "wf a s"
    and p: "pending_of (UnlockReturn n (Some e)) \<in> set (pendings s)"
  shows "inv_out a (deliver a s (UnlockReturn n (Some e)))"
proof -
  have pp: "PUnlock n \<in> set (pendings s)" using p by simp
  have ne: "pendings s \<noteq> []" using p by auto
  note g = wf_PUnlock [OF w pp] wf_results [OF w] 
  show ?thesis
    using i g pp ne 
    by (cases "hasError s")
       (auto simp: deliver_def inv_out_def external_def after_fund_def unlock_def sign_def Let_def unlock_call_def)
qed

lemma inv_out_SignL:
  assumes i: "inv_out a s" and w: "wf a s"
    and p: "pending_of (SignReturn (Inl e)) \<in> set (pendings s)"
  shows "inv_out a (deliver a s (SignReturn (Inl e)))"
proof -
  have pp: "PSign \<in> set (pendings s)" using p by simp
  have ne: "pendings s \<noteq> []" using p by auto
  note g = wf_PSign [OF w pp] wf_results [OF w] 
  show ?thesis
    using i g pp ne 
    by (cases "hasError s")
       (auto simp: deliver_def inv_out_def external_def after_fund_def unlock_def sign_def Let_def unlock_call_def)
qed

lemma inv_out_SignR:
  assumes i: "inv_out a s" and w: "wf a s"
    and p: "pending_of (SignReturn (Inr t)) \<in> set (pendings s)"
  shows "inv_out a (deliver a s (SignReturn (Inr t)))"
proof -
  have pp: "PSign \<in> set (pendings s)" using p by simp
  have ne: "pendings s \<noteq> []" using p by auto
  note g = wf_PSign [OF w pp] wf_results [OF w] 
  show ?thesis
    using i g pp ne 
    by (cases "hasError s")
       (auto simp: deliver_def inv_out_def external_def after_fund_def unlock_def sign_def Let_def unlock_call_def)
qed

lemma inv_out_UnlR:
  assumes i: "inv_out a s" and w: "wf a s"
    and p: "pending_of (UnlockReturn n None) \<in> set (pendings s)"
  shows "inv_out a (deliver a s (UnlockReturn n None))"
proof -
  have pp: "PUnlock n \<in> set (pendings s)" using p by simp
  have ne: "pendings s \<noteq> []" using p by auto
  note g = wf_PUnlock [OF w pp] wf_results [OF w] 
  show ?thesis
    using i g pp ne 
    by (cases "hasError s")
       (auto simp: deliver_def inv_out_def external_def after_fund_def unlock_def sign_def Let_def unlock_call_def)
qed

lemma inv_out_FundR:
  assumes i: "inv_out a s" and w: "wf a s"
    and p: "pending_of (FundReturn (Inr f)) \<in> set (pendings s)"
  shows "inv_out a (deliver a s (FundReturn (Inr f)))"
proof -
  have pp: "PFund \<in> set (pendings s)" using p by simp
  have ne: "pendings s \<noteq> []" using p by auto
  note g = wf_PFund [OF w pp] wf_results [OF w] 
  show ?thesis
    using i g pp ne 
    by (cases "hasError s")
       (auto simp: deliver_def inv_out_def external_def after_fund_def unlock_def sign_def Let_def unlock_call_def)
qed

lemma inv_out_FeeR:
  assumes i: "inv_out a s" and w: "wf a s"
    and p: "pending_of (FeeReturn (Inr q)) \<in> set (pendings s)"
  shows "inv_out a (deliver a s (FeeReturn (Inr q)))"
proof -
  have pp: "PFee \<in> set (pendings s)" using p by simp
  have ne: "pendings s \<noteq> []" using p by auto
  note g = wf_PFee [OF w pp] wf_results [OF w] 
  show ?thesis
  proof (cases "hasError s")
    case True
    then show ?thesis using i g pp ne  by (auto simp: deliver_def inv_out_def)
  next
    case False
    define t where "t = s\<lparr>pendings := removeAll PFee (pendings s), r_getFee := Some q\<rparr>"
    have d: "deliver a s (FeeReturn (Inr q)) = finish (try_fund a t)"
      using False p by (simp add: deliver_def t_def)
    show ?thesis
    proof (cases rule: try_fund_cases [of a t])
      case same
      then show ?thesis using i g pp ne  False unfolding d by (auto simp: inv_out_def t_def)
    next
      case (dust q1 outs us)
      then show ?thesis using i g pp ne  False unfolding d by (auto simp: inv_out_def t_def)
    next
      case (iss q1 outs us)
      then show ?thesis using i g pp ne  False unfolding d by (auto simp: inv_out_def t_def)
    qed
  qed
qed

lemma inv_out_Ask:
  assumes i: "inv_out a s" and w: "wf a s"
    and p: "pending_of (AskReturn xs) \<in> set (pendings s)"
  shows "inv_out a (deliver a s (AskReturn xs))"
proof -
  have pp: "PAsk \<in> set (pendings s)" using p by simp
  have ne: "pendings s \<noteq> []" using p by auto
  note g = wf_PAsk [OF w pp] wf_results [OF w] 
  show ?thesis
  proof (cases "hasError s")
    case True
    then show ?thesis using i g pp ne  by (auto simp: deliver_def inv_out_def)
  next
    case False
    define t where "t = s\<lparr>pendings := removeAll PAsk (pendings s), r_utxos := Some xs\<rparr>"
    have d: "deliver a s (AskReturn xs) = finish (try_fund a t)"
      using False p by (simp add: deliver_def t_def complete_utxos_def)
    show ?thesis
    proof (cases rule: try_fund_cases [of a t])
      case same
      then show ?thesis using i g pp ne  False unfolding d by (auto simp: inv_out_def t_def)
    next
      case (dust q1 outs us)
      then show ?thesis using i g pp ne  False unfolding d by (auto simp: inv_out_def t_def)
    next
      case (iss q1 outs us)
      then show ?thesis using i g pp ne  False unfolding d by (auto simp: inv_out_def t_def)
    qed
  qed
qed

lemma inv_out_UtxR:
  assumes i: "inv_out a s" and w: "wf a s"
    and p: "pending_of (UtxosReturn (Inr g')) \<in> set (pendings s)"
  shows "inv_out a (deliver a s (UtxosReturn (Inr g')))"
proof -
  have pp: "PUtxos \<in> set (pendings s)" using p by simp
  have ne: "pendings s \<noteq> []" using p by auto
  note g = wf_PUtxos [OF w pp] wf_results [OF w] 
  show ?thesis
  proof (cases "hasError s")
    case True
    then show ?thesis using i g pp ne  by (auto simp: deliver_def inv_out_def)
  next
    case False
    define t where "t = s\<lparr>pendings := removeAll PUtxos (pendings s), r_getUtxos := Some (Some g')\<rparr>"
    have d: "deliver a s (UtxosReturn (Inr g')) = finish (utxos a (Some g') t)"
      using False p by (simp add: deliver_def t_def)
    show ?thesis
    proof (cases rule: utxos_cases [of a g' t])
      case empty
      then show ?thesis using i g pp ne  False unfolding d by (auto simp: inv_out_def t_def)
    next
      case ask
      then show ?thesis using i g pp ne  False unfolding d by (auto simp: inv_out_def t_def)
    next
      case explicit
      define u where "u = t\<lparr>r_utxos := Some (given_utxos a)\<rparr>"
      have d: "deliver a s (UtxosReturn (Inr g')) = finish (try_fund a u)"
        using d explicit by (simp add: u_def)
      show ?thesis
      proof (cases rule: try_fund_cases [of a u])
        case same
        then show ?thesis using i g pp ne  False explicit(1) t_def unfolding d by (auto simp: inv_out_def u_def)
      next
        case (dust q1 outs us)
        then show ?thesis using i g pp ne  False explicit(1) t_def unfolding d by (auto simp: inv_out_def u_def)
      next
        case (iss q1 outs us)
        then show ?thesis using i g pp ne  False explicit(1) t_def unfolding d by (auto simp: inv_out_def u_def)
      qed
    next
      case auto_select
      define u where "u = t\<lparr>r_utxos := Some []\<rparr>"
      have d: "deliver a s (UtxosReturn (Inr g')) = finish (try_fund a u)"
        using d auto_select by (simp add: u_def)
      show ?thesis
      proof (cases rule: try_fund_cases [of a u])
        case same
        then show ?thesis using i g pp ne  False auto_select(1,2) t_def unfolding d by (auto simp: inv_out_def u_def)
      next
        case (dust q1 outs us)
        then show ?thesis using i g pp ne  False auto_select(1,2) t_def unfolding d by (auto simp: inv_out_def u_def)
      next
        case (iss q1 outs us)
        then show ?thesis using i g pp ne  False auto_select(1,2) t_def unfolding d by (auto simp: inv_out_def u_def)
      qed
    qed
  qed
qed

lemma inv_out_deliver:
  assumes i: "inv_out a s" and w: "wf a s"
  shows "inv_out a (deliver a s r)"
proof (cases "pending_of r \<in> set (pendings s)")
  case False
  with i show ?thesis by (simp add: deliver_def)
next
  case True
  show ?thesis
  proof (cases r)
    case (FeeReturn x)
    with i w  True show ?thesis by (cases x) (simp_all add: inv_out_FeeL inv_out_FeeR)
  next
    case (UtxosReturn x)
    with i w  True show ?thesis by (cases x) (simp_all add: inv_out_UtxL inv_out_UtxR)
  next
    case (AskReturn x)
    with i w  True show ?thesis by (simp add: inv_out_Ask)
  next
    case (FundReturn x)
    with i w  True show ?thesis by (cases x) (simp_all add: inv_out_FundL inv_out_FundR)
  next
    case (UnlockReturn n x)
    with i w  True show ?thesis by (cases x) (simp_all add: inv_out_UnlR inv_out_UnlL)
  next
    case (SignReturn x)
    with i w  True show ?thesis by (cases x) (simp_all add: inv_out_SignL inv_out_SignR)
  qed
qed

subsection \<open>Calls in flight after a failure\<close>

lemma inv_late_FeeL:
  assumes i: "inv_late a s" and w: "wf a s" and o: "inv_out a s"
    and p: "pending_of (FeeReturn (Inl e)) \<in> set (pendings s)"
  shows "inv_late a (deliver a s (FeeReturn (Inl e)))"
proof -
  have pp: "PFee \<in> set (pendings s)" using p by simp
  have ne: "pendings s \<noteq> []" using p by auto
  note g = wf_PFee [OF w pp] wf_results [OF w] 
  note sup = inv_out_None [OF o]
  show ?thesis
    using i g pp ne sup
    by (cases "hasError s")
       (auto simp: deliver_def inv_late_def external_def after_fund_def unlock_def sign_def Let_def unlock_call_def)
qed

lemma inv_late_UtxL:
  assumes i: "inv_late a s" and w: "wf a s" and o: "inv_out a s"
    and p: "pending_of (UtxosReturn (Inl e)) \<in> set (pendings s)"
  shows "inv_late a (deliver a s (UtxosReturn (Inl e)))"
proof -
  have pp: "PUtxos \<in> set (pendings s)" using p by simp
  have ne: "pendings s \<noteq> []" using p by auto
  note g = wf_PUtxos [OF w pp] wf_results [OF w] 
  note sup = inv_out_None [OF o]
  show ?thesis
    using i g pp ne sup
    by (cases "hasError s")
       (auto simp: deliver_def inv_late_def external_def after_fund_def unlock_def sign_def Let_def unlock_call_def)
qed

lemma inv_late_FundL:
  assumes i: "inv_late a s" and w: "wf a s" and o: "inv_out a s"
    and p: "pending_of (FundReturn (Inl e)) \<in> set (pendings s)"
  shows "inv_late a (deliver a s (FundReturn (Inl e)))"
proof -
  have pp: "PFund \<in> set (pendings s)" using p by simp
  have ne: "pendings s \<noteq> []" using p by auto
  note g = wf_PFund [OF w pp] wf_results [OF w] 
  note sup = inv_out_None [OF o]
  show ?thesis
    using i g pp ne sup
    by (cases "hasError s")
       (auto simp: deliver_def inv_late_def external_def after_fund_def unlock_def sign_def Let_def unlock_call_def)
qed

lemma inv_late_UnlL:
  assumes i: "inv_late a s" and w: "wf a s" and o: "inv_out a s"
    and p: "pending_of (UnlockReturn n (Some e)) \<in> set (pendings s)"
  shows "inv_late a (deliver a s (UnlockReturn n (Some e)))"
proof -
  have pp: "PUnlock n \<in> set (pendings s)" using p by simp
  have ne: "pendings s \<noteq> []" using p by auto
  note g = wf_PUnlock [OF w pp] wf_results [OF w] 
  note sup = inv_out_None [OF o]
  show ?thesis
    using i g pp ne sup
    by (cases "hasError s")
       (auto simp: deliver_def inv_late_def external_def after_fund_def unlock_def sign_def Let_def unlock_call_def)
qed

lemma inv_late_SignL:
  assumes i: "inv_late a s" and w: "wf a s" and o: "inv_out a s"
    and p: "pending_of (SignReturn (Inl e)) \<in> set (pendings s)"
  shows "inv_late a (deliver a s (SignReturn (Inl e)))"
proof -
  have pp: "PSign \<in> set (pendings s)" using p by simp
  have ne: "pendings s \<noteq> []" using p by auto
  note g = wf_PSign [OF w pp] wf_results [OF w] 
  note sup = inv_out_None [OF o]
  show ?thesis
    using i g pp ne sup
    by (cases "hasError s")
       (auto simp: deliver_def inv_late_def external_def after_fund_def unlock_def sign_def Let_def unlock_call_def)
qed

lemma inv_late_SignR:
  assumes i: "inv_late a s" and w: "wf a s" and o: "inv_out a s"
    and p: "pending_of (SignReturn (Inr t)) \<in> set (pendings s)"
  shows "inv_late a (deliver a s (SignReturn (Inr t)))"
proof -
  have pp: "PSign \<in> set (pendings s)" using p by simp
  have ne: "pendings s \<noteq> []" using p by auto
  note g = wf_PSign [OF w pp] wf_results [OF w] 
  note sup = inv_out_None [OF o]
  show ?thesis
    using i g pp ne sup
    by (cases "hasError s")
       (auto simp: deliver_def inv_late_def external_def after_fund_def unlock_def sign_def Let_def unlock_call_def)
qed

lemma inv_late_UnlR:
  assumes i: "inv_late a s" and w: "wf a s" and o: "inv_out a s"
    and p: "pending_of (UnlockReturn n None) \<in> set (pendings s)"
  shows "inv_late a (deliver a s (UnlockReturn n None))"
proof -
  have pp: "PUnlock n \<in> set (pendings s)" using p by simp
  have ne: "pendings s \<noteq> []" using p by auto
  note g = wf_PUnlock [OF w pp] wf_results [OF w] 
  note sup = inv_out_None [OF o]
  show ?thesis
    using i g pp ne sup
    by (cases "hasError s")
       (auto simp: deliver_def inv_late_def external_def after_fund_def unlock_def sign_def Let_def unlock_call_def)
qed

lemma inv_late_FundR:
  assumes i: "inv_late a s" and w: "wf a s" and o: "inv_out a s"
    and p: "pending_of (FundReturn (Inr f)) \<in> set (pendings s)"
  shows "inv_late a (deliver a s (FundReturn (Inr f)))"
proof -
  have pp: "PFund \<in> set (pendings s)" using p by simp
  have ne: "pendings s \<noteq> []" using p by auto
  note g = wf_PFund [OF w pp] wf_results [OF w] 
  note sup = inv_out_None [OF o]
  show ?thesis
    using i g pp ne sup
    by (cases "hasError s")
       (auto simp: deliver_def inv_late_def external_def after_fund_def unlock_def sign_def Let_def unlock_call_def)
qed

lemma inv_late_FeeR:
  assumes i: "inv_late a s" and w: "wf a s" and o: "inv_out a s"
    and p: "pending_of (FeeReturn (Inr q)) \<in> set (pendings s)"
  shows "inv_late a (deliver a s (FeeReturn (Inr q)))"
proof -
  have pp: "PFee \<in> set (pendings s)" using p by simp
  have ne: "pendings s \<noteq> []" using p by auto
  note g = wf_PFee [OF w pp] wf_results [OF w] 
  note sup = inv_out_None [OF o]
  show ?thesis
  proof (cases "hasError s")
    case True
    then show ?thesis using i g pp ne sup by (auto simp: deliver_def inv_late_def)
  next
    case False
    define t where "t = s\<lparr>pendings := removeAll PFee (pendings s), r_getFee := Some q\<rparr>"
    have d: "deliver a s (FeeReturn (Inr q)) = finish (try_fund a t)"
      using False p by (simp add: deliver_def t_def)
    show ?thesis
    proof (cases rule: try_fund_cases [of a t])
      case same
      then show ?thesis using i g pp ne sup False unfolding d by (auto simp: inv_late_def t_def)
    next
      case (dust q1 outs us)
      then show ?thesis using i g pp ne sup False unfolding d by (auto simp: inv_late_def t_def)
    next
      case (iss q1 outs us)
      then show ?thesis using i g pp ne sup False unfolding d by (auto simp: inv_late_def t_def)
    qed
  qed
qed

lemma inv_late_Ask:
  assumes i: "inv_late a s" and w: "wf a s" and o: "inv_out a s"
    and p: "pending_of (AskReturn xs) \<in> set (pendings s)"
  shows "inv_late a (deliver a s (AskReturn xs))"
proof -
  have pp: "PAsk \<in> set (pendings s)" using p by simp
  have ne: "pendings s \<noteq> []" using p by auto
  note g = wf_PAsk [OF w pp] wf_results [OF w] 
  note sup = inv_out_None [OF o]
  show ?thesis
  proof (cases "hasError s")
    case True
    then show ?thesis using i g pp ne sup by (auto simp: deliver_def inv_late_def)
  next
    case False
    define t where "t = s\<lparr>pendings := removeAll PAsk (pendings s), r_utxos := Some xs\<rparr>"
    have d: "deliver a s (AskReturn xs) = finish (try_fund a t)"
      using False p by (simp add: deliver_def t_def complete_utxos_def)
    show ?thesis
    proof (cases rule: try_fund_cases [of a t])
      case same
      then show ?thesis using i g pp ne sup False unfolding d by (auto simp: inv_late_def t_def)
    next
      case (dust q1 outs us)
      then show ?thesis using i g pp ne sup False unfolding d by (auto simp: inv_late_def t_def)
    next
      case (iss q1 outs us)
      then show ?thesis using i g pp ne sup False unfolding d by (auto simp: inv_late_def t_def)
    qed
  qed
qed

lemma inv_late_UtxR:
  assumes i: "inv_late a s" and w: "wf a s" and o: "inv_out a s"
    and p: "pending_of (UtxosReturn (Inr g')) \<in> set (pendings s)"
  shows "inv_late a (deliver a s (UtxosReturn (Inr g')))"
proof -
  have pp: "PUtxos \<in> set (pendings s)" using p by simp
  have ne: "pendings s \<noteq> []" using p by auto
  note g = wf_PUtxos [OF w pp] wf_results [OF w] 
  note sup = inv_out_None [OF o]
  show ?thesis
  proof (cases "hasError s")
    case True
    then show ?thesis using i g pp ne sup by (auto simp: deliver_def inv_late_def)
  next
    case False
    define t where "t = s\<lparr>pendings := removeAll PUtxos (pendings s), r_getUtxos := Some (Some g')\<rparr>"
    have d: "deliver a s (UtxosReturn (Inr g')) = finish (utxos a (Some g') t)"
      using False p by (simp add: deliver_def t_def)
    show ?thesis
    proof (cases rule: utxos_cases [of a g' t])
      case empty
      then show ?thesis using i g pp ne sup False unfolding d by (auto simp: inv_late_def t_def)
    next
      case ask
      then show ?thesis using i g pp ne sup False unfolding d by (auto simp: inv_late_def t_def)
    next
      case explicit
      define u where "u = t\<lparr>r_utxos := Some (given_utxos a)\<rparr>"
      have d: "deliver a s (UtxosReturn (Inr g')) = finish (try_fund a u)"
        using d explicit by (simp add: u_def)
      show ?thesis
      proof (cases rule: try_fund_cases [of a u])
        case same
        then show ?thesis using i g pp ne sup False explicit(1) t_def unfolding d by (auto simp: inv_late_def u_def)
      next
        case (dust q1 outs us)
        then show ?thesis using i g pp ne sup False explicit(1) t_def unfolding d by (auto simp: inv_late_def u_def)
      next
        case (iss q1 outs us)
        then show ?thesis using i g pp ne sup False explicit(1) t_def unfolding d by (auto simp: inv_late_def u_def)
      qed
    next
      case auto_select
      define u where "u = t\<lparr>r_utxos := Some []\<rparr>"
      have d: "deliver a s (UtxosReturn (Inr g')) = finish (try_fund a u)"
        using d auto_select by (simp add: u_def)
      show ?thesis
      proof (cases rule: try_fund_cases [of a u])
        case same
        then show ?thesis using i g pp ne sup False auto_select(1,2) t_def unfolding d by (auto simp: inv_late_def u_def)
      next
        case (dust q1 outs us)
        then show ?thesis using i g pp ne sup False auto_select(1,2) t_def unfolding d by (auto simp: inv_late_def u_def)
      next
        case (iss q1 outs us)
        then show ?thesis using i g pp ne sup False auto_select(1,2) t_def unfolding d by (auto simp: inv_late_def u_def)
      qed
    qed
  qed
qed

lemma inv_late_deliver:
  assumes i: "inv_late a s" and w: "wf a s" and o: "inv_out a s"
  shows "inv_late a (deliver a s r)"
proof (cases "pending_of r \<in> set (pendings s)")
  case False
  with i show ?thesis by (simp add: deliver_def)
next
  case True
  show ?thesis
  proof (cases r)
    case (FeeReturn x)
    with i w o True show ?thesis by (cases x) (simp_all add: inv_late_FeeL inv_late_FeeR)
  next
    case (UtxosReturn x)
    with i w o True show ?thesis by (cases x) (simp_all add: inv_late_UtxL inv_late_UtxR)
  next
    case (AskReturn x)
    with i w o True show ?thesis by (simp add: inv_late_Ask)
  next
    case (FundReturn x)
    with i w o True show ?thesis by (cases x) (simp_all add: inv_late_FundL inv_late_FundR)
  next
    case (UnlockReturn n x)
    with i w o True show ?thesis by (cases x) (simp_all add: inv_late_UnlR inv_late_UnlL)
  next
    case (SignReturn x)
    with i w o True show ?thesis by (cases x) (simp_all add: inv_late_SignL inv_late_SignR)
  qed
qed

subsection \<open>The dust check\<close>

lemma inv_dust_FeeL:
  assumes i: "inv_dust a s" and w: "wf a s" and o: "inv_out a s" and l: "inv_late a s"
    and p: "pending_of (FeeReturn (Inl e)) \<in> set (pendings s)"
  shows "inv_dust a (deliver a s (FeeReturn (Inl e)))"
proof -
  have pp: "PFee \<in> set (pendings s)" using p by simp
  have ne: "pendings s \<noteq> []" using p by auto
  note g = wf_PFee [OF w pp] wf_results [OF w] 
  note sup = inv_out_None [OF o] inv_late_PFee [OF l]
  show ?thesis
    using i g pp ne sup
    by (cases "hasError s")
       (auto simp: deliver_def inv_dust_def external_def after_fund_def unlock_def sign_def Let_def unlock_call_def)
qed

lemma inv_dust_UtxL:
  assumes i: "inv_dust a s" and w: "wf a s" and o: "inv_out a s" and l: "inv_late a s"
    and p: "pending_of (UtxosReturn (Inl e)) \<in> set (pendings s)"
  shows "inv_dust a (deliver a s (UtxosReturn (Inl e)))"
proof -
  have pp: "PUtxos \<in> set (pendings s)" using p by simp
  have ne: "pendings s \<noteq> []" using p by auto
  note g = wf_PUtxos [OF w pp] wf_results [OF w] 
  note sup = inv_out_None [OF o] inv_late_PUtxos [OF l]
  show ?thesis
    using i g pp ne sup
    by (cases "hasError s")
       (auto simp: deliver_def inv_dust_def external_def after_fund_def unlock_def sign_def Let_def unlock_call_def)
qed

lemma inv_dust_FundL:
  assumes i: "inv_dust a s" and w: "wf a s" and o: "inv_out a s" and l: "inv_late a s"
    and p: "pending_of (FundReturn (Inl e)) \<in> set (pendings s)"
  shows "inv_dust a (deliver a s (FundReturn (Inl e)))"
proof -
  have pp: "PFund \<in> set (pendings s)" using p by simp
  have ne: "pendings s \<noteq> []" using p by auto
  note g = wf_PFund [OF w pp] wf_results [OF w] 
  note sup = inv_out_None [OF o]
  show ?thesis
    using i g pp ne sup
    by (cases "hasError s")
       (auto simp: deliver_def inv_dust_def external_def after_fund_def unlock_def sign_def Let_def unlock_call_def)
qed

lemma inv_dust_UnlL:
  assumes i: "inv_dust a s" and w: "wf a s" and o: "inv_out a s" and l: "inv_late a s"
    and p: "pending_of (UnlockReturn n (Some e)) \<in> set (pendings s)"
  shows "inv_dust a (deliver a s (UnlockReturn n (Some e)))"
proof -
  have pp: "PUnlock n \<in> set (pendings s)" using p by simp
  have ne: "pendings s \<noteq> []" using p by auto
  note g = wf_PUnlock [OF w pp] wf_results [OF w] 
  note sup = inv_out_None [OF o]
  show ?thesis
    using i g pp ne sup
    by (cases "hasError s")
       (auto simp: deliver_def inv_dust_def external_def after_fund_def unlock_def sign_def Let_def unlock_call_def)
qed

lemma inv_dust_SignL:
  assumes i: "inv_dust a s" and w: "wf a s" and o: "inv_out a s" and l: "inv_late a s"
    and p: "pending_of (SignReturn (Inl e)) \<in> set (pendings s)"
  shows "inv_dust a (deliver a s (SignReturn (Inl e)))"
proof -
  have pp: "PSign \<in> set (pendings s)" using p by simp
  have ne: "pendings s \<noteq> []" using p by auto
  note g = wf_PSign [OF w pp] wf_results [OF w] 
  note sup = inv_out_None [OF o]
  show ?thesis
    using i g pp ne sup
    by (cases "hasError s")
       (auto simp: deliver_def inv_dust_def external_def after_fund_def unlock_def sign_def Let_def unlock_call_def)
qed

lemma inv_dust_SignR:
  assumes i: "inv_dust a s" and w: "wf a s" and o: "inv_out a s" and l: "inv_late a s"
    and p: "pending_of (SignReturn (Inr t)) \<in> set (pendings s)"
  shows "inv_dust a (deliver a s (SignReturn (Inr t)))"
proof -
  have pp: "PSign \<in> set (pendings s)" using p by simp
  have ne: "pendings s \<noteq> []" using p by auto
  note g = wf_PSign [OF w pp] wf_results [OF w] 
  note sup = inv_out_None [OF o]
  show ?thesis
    using i g pp ne sup
    by (cases "hasError s")
       (auto simp: deliver_def inv_dust_def external_def after_fund_def unlock_def sign_def Let_def unlock_call_def)
qed

lemma inv_dust_UnlR:
  assumes i: "inv_dust a s" and w: "wf a s" and o: "inv_out a s" and l: "inv_late a s"
    and p: "pending_of (UnlockReturn n None) \<in> set (pendings s)"
  shows "inv_dust a (deliver a s (UnlockReturn n None))"
proof -
  have pp: "PUnlock n \<in> set (pendings s)" using p by simp
  have ne: "pendings s \<noteq> []" using p by auto
  note g = wf_PUnlock [OF w pp] wf_results [OF w] 
  note sup = inv_out_None [OF o]
  show ?thesis
    using i g pp ne sup
    by (cases "hasError s")
       (auto simp: deliver_def inv_dust_def external_def after_fund_def unlock_def sign_def Let_def unlock_call_def)
qed

lemma inv_dust_FundR:
  assumes i: "inv_dust a s" and w: "wf a s" and o: "inv_out a s" and l: "inv_late a s"
    and p: "pending_of (FundReturn (Inr f)) \<in> set (pendings s)"
  shows "inv_dust a (deliver a s (FundReturn (Inr f)))"
proof -
  have pp: "PFund \<in> set (pendings s)" using p by simp
  have ne: "pendings s \<noteq> []" using p by auto
  note g = wf_PFund [OF w pp] wf_results [OF w] 
  note sup = inv_out_None [OF o]
  show ?thesis
    using i g pp ne sup
    by (cases "hasError s")
       (auto simp: deliver_def inv_dust_def external_def after_fund_def unlock_def sign_def Let_def unlock_call_def)
qed

lemma inv_dust_FeeR:
  assumes i: "inv_dust a s" and w: "wf a s" and o: "inv_out a s" and l: "inv_late a s"
    and p: "pending_of (FeeReturn (Inr q)) \<in> set (pendings s)"
  shows "inv_dust a (deliver a s (FeeReturn (Inr q)))"
proof -
  have pp: "PFee \<in> set (pendings s)" using p by simp
  have ne: "pendings s \<noteq> []" using p by auto
  note g = wf_PFee [OF w pp] wf_results [OF w] 
  note sup = inv_out_None [OF o] inv_late_PFee [OF l]
  show ?thesis
  proof (cases "hasError s")
    case True
    then show ?thesis using i g pp ne sup by (auto simp: deliver_def inv_dust_def)
  next
    case False
    define t where "t = s\<lparr>pendings := removeAll PFee (pendings s), r_getFee := Some q\<rparr>"
    have d: "deliver a s (FeeReturn (Inr q)) = finish (try_fund a t)"
      using False p by (simp add: deliver_def t_def)
    show ?thesis
    proof (cases rule: try_fund_cases [of a t])
      case same
      then show ?thesis using i g pp ne sup False unfolding d by (auto simp: inv_dust_def t_def)
    next
      case (dust q1 outs us)
      then show ?thesis using i g pp ne sup False unfolding d by (auto simp: inv_dust_def t_def)
    next
      case (iss q1 outs us)
      then show ?thesis using i g pp ne sup False unfolding d by (auto simp: inv_dust_def t_def)
    qed
  qed
qed

lemma inv_dust_Ask:
  assumes i: "inv_dust a s" and w: "wf a s" and o: "inv_out a s" and l: "inv_late a s"
    and p: "pending_of (AskReturn xs) \<in> set (pendings s)"
  shows "inv_dust a (deliver a s (AskReturn xs))"
proof -
  have pp: "PAsk \<in> set (pendings s)" using p by simp
  have ne: "pendings s \<noteq> []" using p by auto
  note g = wf_PAsk [OF w pp] wf_results [OF w] 
  note sup = inv_out_None [OF o] inv_late_PAsk [OF l]
  show ?thesis
  proof (cases "hasError s")
    case True
    then show ?thesis using i g pp ne sup by (auto simp: deliver_def inv_dust_def)
  next
    case False
    define t where "t = s\<lparr>pendings := removeAll PAsk (pendings s), r_utxos := Some xs\<rparr>"
    have d: "deliver a s (AskReturn xs) = finish (try_fund a t)"
      using False p by (simp add: deliver_def t_def complete_utxos_def)
    show ?thesis
    proof (cases rule: try_fund_cases [of a t])
      case same
      then show ?thesis using i g pp ne sup False unfolding d by (auto simp: inv_dust_def t_def)
    next
      case (dust q1 outs us)
      then show ?thesis using i g pp ne sup False unfolding d by (auto simp: inv_dust_def t_def)
    next
      case (iss q1 outs us)
      then show ?thesis using i g pp ne sup False unfolding d by (auto simp: inv_dust_def t_def)
    qed
  qed
qed

lemma inv_dust_UtxR:
  assumes i: "inv_dust a s" and w: "wf a s" and o: "inv_out a s" and l: "inv_late a s"
    and p: "pending_of (UtxosReturn (Inr g')) \<in> set (pendings s)"
  shows "inv_dust a (deliver a s (UtxosReturn (Inr g')))"
proof -
  have pp: "PUtxos \<in> set (pendings s)" using p by simp
  have ne: "pendings s \<noteq> []" using p by auto
  note g = wf_PUtxos [OF w pp] wf_results [OF w] 
  note sup = inv_out_None [OF o] inv_late_PUtxos [OF l]
  show ?thesis
  proof (cases "hasError s")
    case True
    then show ?thesis using i g pp ne sup by (auto simp: deliver_def inv_dust_def)
  next
    case False
    define t where "t = s\<lparr>pendings := removeAll PUtxos (pendings s), r_getUtxos := Some (Some g')\<rparr>"
    have d: "deliver a s (UtxosReturn (Inr g')) = finish (utxos a (Some g') t)"
      using False p by (simp add: deliver_def t_def)
    show ?thesis
    proof (cases rule: utxos_cases [of a g' t])
      case empty
      then show ?thesis using i g pp ne sup False unfolding d by (auto simp: inv_dust_def t_def)
    next
      case ask
      then show ?thesis using i g pp ne sup False unfolding d by (auto simp: inv_dust_def t_def)
    next
      case explicit
      define u where "u = t\<lparr>r_utxos := Some (given_utxos a)\<rparr>"
      have d: "deliver a s (UtxosReturn (Inr g')) = finish (try_fund a u)"
        using d explicit by (simp add: u_def)
      show ?thesis
      proof (cases rule: try_fund_cases [of a u])
        case same
        then show ?thesis using i g pp ne sup False explicit(1) t_def unfolding d by (auto simp: inv_dust_def u_def)
      next
        case (dust q1 outs us)
        then show ?thesis using i g pp ne sup False explicit(1) t_def unfolding d by (auto simp: inv_dust_def u_def)
      next
        case (iss q1 outs us)
        then show ?thesis using i g pp ne sup False explicit(1) t_def unfolding d by (auto simp: inv_dust_def u_def)
      qed
    next
      case auto_select
      define u where "u = t\<lparr>r_utxos := Some []\<rparr>"
      have d: "deliver a s (UtxosReturn (Inr g')) = finish (try_fund a u)"
        using d auto_select by (simp add: u_def)
      show ?thesis
      proof (cases rule: try_fund_cases [of a u])
        case same
        then show ?thesis using i g pp ne sup False auto_select(1,2) t_def unfolding d by (auto simp: inv_dust_def u_def)
      next
        case (dust q1 outs us)
        then show ?thesis using i g pp ne sup False auto_select(1,2) t_def unfolding d by (auto simp: inv_dust_def u_def)
      next
        case (iss q1 outs us)
        then show ?thesis using i g pp ne sup False auto_select(1,2) t_def unfolding d by (auto simp: inv_dust_def u_def)
      qed
    qed
  qed
qed

lemma inv_dust_deliver:
  assumes i: "inv_dust a s" and w: "wf a s" and o: "inv_out a s" and l: "inv_late a s"
  shows "inv_dust a (deliver a s r)"
proof (cases "pending_of r \<in> set (pendings s)")
  case False
  with i show ?thesis by (simp add: deliver_def)
next
  case True
  show ?thesis
  proof (cases r)
    case (FeeReturn x)
    with i w o l True show ?thesis by (cases x) (simp_all add: inv_dust_FeeL inv_dust_FeeR)
  next
    case (UtxosReturn x)
    with i w o l True show ?thesis by (cases x) (simp_all add: inv_dust_UtxL inv_dust_UtxR)
  next
    case (AskReturn x)
    with i w o l True show ?thesis by (simp add: inv_dust_Ask)
  next
    case (FundReturn x)
    with i w o l True show ?thesis by (cases x) (simp_all add: inv_dust_FundL inv_dust_FundR)
  next
    case (UnlockReturn n x)
    with i w o l True show ?thesis by (cases x) (simp_all add: inv_dust_UnlR inv_dust_UnlL)
  next
    case (SignReturn x)
    with i w o l True show ?thesis by (cases x) (simp_all add: inv_dust_SignL inv_dust_SignR)
  qed
qed

subsection \<open>Coin selection\<close>

lemma inv_sel_FeeL:
  assumes i: "inv_sel a s" and w: "wf a s"
    and p: "pending_of (FeeReturn (Inl e)) \<in> set (pendings s)"
  shows "inv_sel a (deliver a s (FeeReturn (Inl e)))"
proof -
  have pp: "PFee \<in> set (pendings s)" using p by simp
  have ne: "pendings s \<noteq> []" using p by auto
  note g = wf_PFee [OF w pp] wf_results [OF w] 
  note sup = validate_selecting_given [OF inv_sel_validate [OF i ne]]
  show ?thesis
    using i pp ne sup
    by (cases "hasError s")
       (auto simp: deliver_def inv_sel_def external_def after_fund_def unlock_def sign_def Let_def unlock_call_def)
qed

lemma inv_sel_UtxL:
  assumes i: "inv_sel a s" and w: "wf a s"
    and p: "pending_of (UtxosReturn (Inl e)) \<in> set (pendings s)"
  shows "inv_sel a (deliver a s (UtxosReturn (Inl e)))"
proof -
  have pp: "PUtxos \<in> set (pendings s)" using p by simp
  have ne: "pendings s \<noteq> []" using p by auto
  note g = wf_PUtxos [OF w pp] wf_results [OF w] 
  note sup = validate_selecting_given [OF inv_sel_validate [OF i ne]]
  show ?thesis
    using i pp ne sup
    by (cases "hasError s")
       (auto simp: deliver_def inv_sel_def external_def after_fund_def unlock_def sign_def Let_def unlock_call_def)
qed

lemma inv_sel_FundL:
  assumes i: "inv_sel a s" and w: "wf a s"
    and p: "pending_of (FundReturn (Inl e)) \<in> set (pendings s)"
  shows "inv_sel a (deliver a s (FundReturn (Inl e)))"
proof -
  have pp: "PFund \<in> set (pendings s)" using p by simp
  have ne: "pendings s \<noteq> []" using p by auto
  note g = wf_PFund [OF w pp] wf_results [OF w] 
  note sup = validate_selecting_given [OF inv_sel_validate [OF i ne]]
  show ?thesis
    using i pp ne sup
    by (cases "hasError s")
       (auto simp: deliver_def inv_sel_def external_def after_fund_def unlock_def sign_def Let_def unlock_call_def)
qed

lemma inv_sel_UnlL:
  assumes i: "inv_sel a s" and w: "wf a s"
    and p: "pending_of (UnlockReturn n (Some e)) \<in> set (pendings s)"
  shows "inv_sel a (deliver a s (UnlockReturn n (Some e)))"
proof -
  have pp: "PUnlock n \<in> set (pendings s)" using p by simp
  have ne: "pendings s \<noteq> []" using p by auto
  note g = wf_PUnlock [OF w pp] wf_results [OF w] 
  note sup = validate_selecting_given [OF inv_sel_validate [OF i ne]]
  show ?thesis
    using i pp ne sup
    by (cases "hasError s")
       (auto simp: deliver_def inv_sel_def external_def after_fund_def unlock_def sign_def Let_def unlock_call_def)
qed

lemma inv_sel_SignL:
  assumes i: "inv_sel a s" and w: "wf a s"
    and p: "pending_of (SignReturn (Inl e)) \<in> set (pendings s)"
  shows "inv_sel a (deliver a s (SignReturn (Inl e)))"
proof -
  have pp: "PSign \<in> set (pendings s)" using p by simp
  have ne: "pendings s \<noteq> []" using p by auto
  note g = wf_PSign [OF w pp] wf_results [OF w] 
  note sup = validate_selecting_given [OF inv_sel_validate [OF i ne]]
  show ?thesis
    using i pp ne sup
    by (cases "hasError s")
       (auto simp: deliver_def inv_sel_def external_def after_fund_def unlock_def sign_def Let_def unlock_call_def)
qed

lemma inv_sel_SignR:
  assumes i: "inv_sel a s" and w: "wf a s"
    and p: "pending_of (SignReturn (Inr t)) \<in> set (pendings s)"
  shows "inv_sel a (deliver a s (SignReturn (Inr t)))"
proof -
  have pp: "PSign \<in> set (pendings s)" using p by simp
  have ne: "pendings s \<noteq> []" using p by auto
  note g = wf_PSign [OF w pp] wf_results [OF w] 
  note sup = validate_selecting_given [OF inv_sel_validate [OF i ne]]
  show ?thesis
    using i pp ne sup
    by (cases "hasError s")
       (auto simp: deliver_def inv_sel_def external_def after_fund_def unlock_def sign_def Let_def unlock_call_def)
qed

lemma inv_sel_UnlR:
  assumes i: "inv_sel a s" and w: "wf a s"
    and p: "pending_of (UnlockReturn n None) \<in> set (pendings s)"
  shows "inv_sel a (deliver a s (UnlockReturn n None))"
proof -
  have pp: "PUnlock n \<in> set (pendings s)" using p by simp
  have ne: "pendings s \<noteq> []" using p by auto
  note g = wf_PUnlock [OF w pp] wf_results [OF w] 
  note sup = validate_selecting_given [OF inv_sel_validate [OF i ne]]
  show ?thesis
    using i pp ne sup
    by (cases "hasError s")
       (auto simp: deliver_def inv_sel_def external_def after_fund_def unlock_def sign_def Let_def unlock_call_def)
qed

lemma inv_sel_FundR:
  assumes i: "inv_sel a s" and w: "wf a s"
    and p: "pending_of (FundReturn (Inr f)) \<in> set (pendings s)"
  shows "inv_sel a (deliver a s (FundReturn (Inr f)))"
proof -
  have pp: "PFund \<in> set (pendings s)" using p by simp
  have ne: "pendings s \<noteq> []" using p by auto
  note g = wf_PFund [OF w pp] wf_results [OF w] 
  note sup = validate_selecting_given [OF inv_sel_validate [OF i ne]]
  show ?thesis
    using i pp ne sup
    by (cases "hasError s")
       (auto simp: deliver_def inv_sel_def external_def after_fund_def unlock_def sign_def Let_def unlock_call_def)
qed

lemma inv_sel_FeeR:
  assumes i: "inv_sel a s" and w: "wf a s"
    and p: "pending_of (FeeReturn (Inr q)) \<in> set (pendings s)"
  shows "inv_sel a (deliver a s (FeeReturn (Inr q)))"
proof -
  have pp: "PFee \<in> set (pendings s)" using p by simp
  have ne: "pendings s \<noteq> []" using p by auto
  note g = wf_PFee [OF w pp] wf_results [OF w] 
  note sup = validate_selecting_given [OF inv_sel_validate [OF i ne]]
  show ?thesis
  proof (cases "hasError s")
    case True
    then show ?thesis using i pp ne sup by (auto simp: deliver_def inv_sel_def)
  next
    case False
    define t where "t = s\<lparr>pendings := removeAll PFee (pendings s), r_getFee := Some q\<rparr>"
    have d: "deliver a s (FeeReturn (Inr q)) = finish (try_fund a t)"
      using False p by (simp add: deliver_def t_def)
    show ?thesis
    proof (cases rule: try_fund_cases [of a t])
      case same
      then show ?thesis using i pp ne sup False unfolding d by (auto simp: inv_sel_def t_def)
    next
      case (dust q1 outs us)
      then show ?thesis using i pp ne sup False unfolding d by (auto simp: inv_sel_def t_def)
    next
      case (iss q1 outs us)
      then show ?thesis using i pp ne sup False unfolding d by (auto simp: inv_sel_def t_def)
    qed
  qed
qed

lemma inv_sel_Ask:
  assumes i: "inv_sel a s" and w: "wf a s"
    and p: "pending_of (AskReturn xs) \<in> set (pendings s)"
  shows "inv_sel a (deliver a s (AskReturn xs))"
proof -
  have pp: "PAsk \<in> set (pendings s)" using p by simp
  have ne: "pendings s \<noteq> []" using p by auto
  note g = wf_PAsk [OF w pp] wf_results [OF w] 
  note sup = validate_selecting_given [OF inv_sel_validate [OF i ne]]
  show ?thesis
  proof (cases "hasError s")
    case True
    then show ?thesis using i pp ne sup by (auto simp: deliver_def inv_sel_def)
  next
    case False
    define t where "t = s\<lparr>pendings := removeAll PAsk (pendings s), r_utxos := Some xs\<rparr>"
    have d: "deliver a s (AskReturn xs) = finish (try_fund a t)"
      using False p by (simp add: deliver_def t_def complete_utxos_def)
    show ?thesis
    proof (cases rule: try_fund_cases [of a t])
      case same
      then show ?thesis using i pp ne sup False unfolding d by (auto simp: inv_sel_def t_def)
    next
      case (dust q1 outs us)
      then show ?thesis using i pp ne sup False unfolding d by (auto simp: inv_sel_def t_def)
    next
      case (iss q1 outs us)
      then show ?thesis using i pp ne sup False unfolding d by (auto simp: inv_sel_def t_def)
    qed
  qed
qed

lemma inv_sel_UtxR:
  assumes i: "inv_sel a s" and w: "wf a s"
    and p: "pending_of (UtxosReturn (Inr g')) \<in> set (pendings s)"
  shows "inv_sel a (deliver a s (UtxosReturn (Inr g')))"
proof -
  have pp: "PUtxos \<in> set (pendings s)" using p by simp
  have ne: "pendings s \<noteq> []" using p by auto
  note g = wf_PUtxos [OF w pp] wf_results [OF w] 
  note sup = validate_selecting_given [OF inv_sel_validate [OF i ne]]
  show ?thesis
  proof (cases "hasError s")
    case True
    then show ?thesis using i pp ne sup by (auto simp: deliver_def inv_sel_def)
  next
    case False
    define t where "t = s\<lparr>pendings := removeAll PUtxos (pendings s), r_getUtxos := Some (Some g')\<rparr>"
    have d: "deliver a s (UtxosReturn (Inr g')) = finish (utxos a (Some g') t)"
      using False p by (simp add: deliver_def t_def)
    show ?thesis
    proof (cases rule: utxos_cases [of a g' t])
      case empty
      then show ?thesis using i pp ne sup False unfolding d by (auto simp: inv_sel_def t_def)
    next
      case ask
      then show ?thesis using i pp ne sup False unfolding d by (auto simp: inv_sel_def t_def)
    next
      case explicit
      define u where "u = t\<lparr>r_utxos := Some (given_utxos a)\<rparr>"
      have d: "deliver a s (UtxosReturn (Inr g')) = finish (try_fund a u)"
        using d explicit by (simp add: u_def)
      show ?thesis
      proof (cases rule: try_fund_cases [of a u])
        case same
        then show ?thesis using i pp ne sup False explicit(1) t_def unfolding d by (auto simp: inv_sel_def u_def)
      next
        case (dust q1 outs us)
        then show ?thesis using i pp ne sup False explicit(1) t_def unfolding d by (auto simp: inv_sel_def u_def)
      next
        case (iss q1 outs us)
        then show ?thesis using i pp ne sup False explicit(1) t_def unfolding d by (auto simp: inv_sel_def u_def)
      qed
    next
      case auto_select
      define u where "u = t\<lparr>r_utxos := Some []\<rparr>"
      have d: "deliver a s (UtxosReturn (Inr g')) = finish (try_fund a u)"
        using d auto_select by (simp add: u_def)
      show ?thesis
      proof (cases rule: try_fund_cases [of a u])
        case same
        then show ?thesis using i pp ne sup False auto_select(1,2) t_def unfolding d by (auto simp: inv_sel_def u_def)
      next
        case (dust q1 outs us)
        then show ?thesis using i pp ne sup False auto_select(1,2) t_def unfolding d by (auto simp: inv_sel_def u_def)
      next
        case (iss q1 outs us)
        then show ?thesis using i pp ne sup False auto_select(1,2) t_def unfolding d by (auto simp: inv_sel_def u_def)
      qed
    qed
  qed
qed

lemma inv_sel_deliver:
  assumes i: "inv_sel a s" and w: "wf a s"
  shows "inv_sel a (deliver a s r)"
proof (cases "pending_of r \<in> set (pendings s)")
  case False
  with i show ?thesis by (simp add: deliver_def)
next
  case True
  show ?thesis
  proof (cases r)
    case (FeeReturn x)
    with i w  True show ?thesis by (cases x) (simp_all add: inv_sel_FeeL inv_sel_FeeR)
  next
    case (UtxosReturn x)
    with i w  True show ?thesis by (cases x) (simp_all add: inv_sel_UtxL inv_sel_UtxR)
  next
    case (AskReturn x)
    with i w  True show ?thesis by (simp add: inv_sel_Ask)
  next
    case (FundReturn x)
    with i w  True show ?thesis by (cases x) (simp_all add: inv_sel_FundL inv_sel_FundR)
  next
    case (UnlockReturn n x)
    with i w  True show ?thesis by (cases x) (simp_all add: inv_sel_UnlR inv_sel_UnlL)
  next
    case (SignReturn x)
    with i w  True show ?thesis by (cases x) (simp_all add: inv_sel_SignL inv_sel_SignR)
  qed
qed

subsection \<open>An empty wallet\<close>

lemma inv_empty_FeeL:
  assumes i: "inv_empty a s" and w: "wf a s" and o: "inv_out a s" and l: "inv_late a s" and sl: "inv_sel a s"
    and p: "pending_of (FeeReturn (Inl e)) \<in> set (pendings s)"
  shows "inv_empty a (deliver a s (FeeReturn (Inl e)))"
proof -
  have pp: "PFee \<in> set (pendings s)" using p by simp
  have ne: "pendings s \<noteq> []" using p by auto
  note g = wf_PFee [OF w pp] wf_results [OF w] 
  note sup = inv_out_None [OF o] inv_sel_getUtxos [OF sl]
  show ?thesis
    using i pp ne sup
    by (cases "hasError s")
       (auto simp: deliver_def inv_empty_def external_def after_fund_def unlock_def sign_def Let_def unlock_call_def)
qed

lemma inv_empty_UtxL:
  assumes i: "inv_empty a s" and w: "wf a s" and o: "inv_out a s" and l: "inv_late a s" and sl: "inv_sel a s"
    and p: "pending_of (UtxosReturn (Inl e)) \<in> set (pendings s)"
  shows "inv_empty a (deliver a s (UtxosReturn (Inl e)))"
proof -
  have pp: "PUtxos \<in> set (pendings s)" using p by simp
  have ne: "pendings s \<noteq> []" using p by auto
  note g = wf_PUtxos [OF w pp] wf_results [OF w] 
  note sup = inv_out_None [OF o] inv_late_PUtxos [OF l] inv_sel_PUtxos [OF sl pp] validate_selecting_given [OF inv_sel_validate [OF sl ne]]
  show ?thesis
    using i pp ne sup
    by (cases "hasError s")
       (auto simp: deliver_def inv_empty_def external_def after_fund_def unlock_def sign_def Let_def unlock_call_def)
qed

lemma inv_empty_FundL:
  assumes i: "inv_empty a s" and w: "wf a s" and o: "inv_out a s" and l: "inv_late a s" and sl: "inv_sel a s"
    and p: "pending_of (FundReturn (Inl e)) \<in> set (pendings s)"
  shows "inv_empty a (deliver a s (FundReturn (Inl e)))"
proof -
  have pp: "PFund \<in> set (pendings s)" using p by simp
  have ne: "pendings s \<noteq> []" using p by auto
  note g = wf_PFund [OF w pp] wf_results [OF w] 
  note sup = inv_out_None [OF o] inv_sel_getUtxos [OF sl]
  show ?thesis
    using i pp ne sup
    by (cases "hasError s")
       (auto simp: deliver_def inv_empty_def external_def after_fund_def unlock_def sign_def Let_def unlock_call_def)
qed

lemma inv_empty_UnlL:
  assumes i: "inv_empty a s" and w: "wf a s" and o: "inv_out a s" and l: "inv_late a s" and sl: "inv_sel a s"
    and p: "pending_of (UnlockReturn n (Some e)) \<in> set (pendings s)"
  shows "inv_empty a (deliver a s (UnlockReturn n (Some e)))"
proof -
  have pp: "PUnlock n \<in> set (pendings s)" using p by simp
  have ne: "pendings s \<noteq> []" using p by auto
  note g = wf_PUnlock [OF w pp] wf_results [OF w] 
  note sup = inv_out_None [OF o] inv_sel_getUtxos [OF sl]
  show ?thesis
    using i pp ne sup
    by (cases "hasError s")
       (auto simp: deliver_def inv_empty_def external_def after_fund_def unlock_def sign_def Let_def unlock_call_def)
qed

lemma inv_empty_SignL:
  assumes i: "inv_empty a s" and w: "wf a s" and o: "inv_out a s" and l: "inv_late a s" and sl: "inv_sel a s"
    and p: "pending_of (SignReturn (Inl e)) \<in> set (pendings s)"
  shows "inv_empty a (deliver a s (SignReturn (Inl e)))"
proof -
  have pp: "PSign \<in> set (pendings s)" using p by simp
  have ne: "pendings s \<noteq> []" using p by auto
  note g = wf_PSign [OF w pp] wf_results [OF w] 
  note sup = inv_out_None [OF o] inv_sel_getUtxos [OF sl]
  show ?thesis
    using i pp ne sup
    by (cases "hasError s")
       (auto simp: deliver_def inv_empty_def external_def after_fund_def unlock_def sign_def Let_def unlock_call_def)
qed

lemma inv_empty_SignR:
  assumes i: "inv_empty a s" and w: "wf a s" and o: "inv_out a s" and l: "inv_late a s" and sl: "inv_sel a s"
    and p: "pending_of (SignReturn (Inr t)) \<in> set (pendings s)"
  shows "inv_empty a (deliver a s (SignReturn (Inr t)))"
proof -
  have pp: "PSign \<in> set (pendings s)" using p by simp
  have ne: "pendings s \<noteq> []" using p by auto
  note g = wf_PSign [OF w pp] wf_results [OF w] 
  note sup = inv_out_None [OF o] inv_sel_getUtxos [OF sl]
  show ?thesis
    using i pp ne sup
    by (cases "hasError s")
       (auto simp: deliver_def inv_empty_def external_def after_fund_def unlock_def sign_def Let_def unlock_call_def)
qed

lemma inv_empty_UnlR:
  assumes i: "inv_empty a s" and w: "wf a s" and o: "inv_out a s" and l: "inv_late a s" and sl: "inv_sel a s"
    and p: "pending_of (UnlockReturn n None) \<in> set (pendings s)"
  shows "inv_empty a (deliver a s (UnlockReturn n None))"
proof -
  have pp: "PUnlock n \<in> set (pendings s)" using p by simp
  have ne: "pendings s \<noteq> []" using p by auto
  note g = wf_PUnlock [OF w pp] wf_results [OF w] 
  note sup = inv_out_None [OF o] inv_sel_getUtxos [OF sl]
  show ?thesis
    using i pp ne sup
    by (cases "hasError s")
       (auto simp: deliver_def inv_empty_def external_def after_fund_def unlock_def sign_def Let_def unlock_call_def)
qed

lemma inv_empty_FundR:
  assumes i: "inv_empty a s" and w: "wf a s" and o: "inv_out a s" and l: "inv_late a s" and sl: "inv_sel a s"
    and p: "pending_of (FundReturn (Inr f)) \<in> set (pendings s)"
  shows "inv_empty a (deliver a s (FundReturn (Inr f)))"
proof -
  have pp: "PFund \<in> set (pendings s)" using p by simp
  have ne: "pendings s \<noteq> []" using p by auto
  note g = wf_PFund [OF w pp] wf_results [OF w] 
  note sup = inv_out_None [OF o] inv_sel_getUtxos [OF sl]
  show ?thesis
    using i pp ne sup
    by (cases "hasError s")
       (auto simp: deliver_def inv_empty_def external_def after_fund_def unlock_def sign_def Let_def unlock_call_def)
qed

lemma inv_empty_FeeR:
  assumes i: "inv_empty a s" and w: "wf a s" and o: "inv_out a s" and l: "inv_late a s" and sl: "inv_sel a s"
    and p: "pending_of (FeeReturn (Inr q)) \<in> set (pendings s)"
  shows "inv_empty a (deliver a s (FeeReturn (Inr q)))"
proof -
  have pp: "PFee \<in> set (pendings s)" using p by simp
  have ne: "pendings s \<noteq> []" using p by auto
  note g = wf_PFee [OF w pp] wf_results [OF w] 
  note sup = inv_out_None [OF o] inv_sel_getUtxos [OF sl]
  show ?thesis
  proof (cases "hasError s")
    case True
    then show ?thesis using i pp ne sup by (auto simp: deliver_def inv_empty_def)
  next
    case False
    define t where "t = s\<lparr>pendings := removeAll PFee (pendings s), r_getFee := Some q\<rparr>"
    have d: "deliver a s (FeeReturn (Inr q)) = finish (try_fund a t)"
      using False p by (simp add: deliver_def t_def)
    show ?thesis
    proof (cases rule: try_fund_cases [of a t])
      case same
      then show ?thesis using i pp ne sup False unfolding d by (auto simp: inv_empty_def t_def)
    next
      case (dust q1 outs us)
      then show ?thesis using i pp ne sup False unfolding d by (auto simp: inv_empty_def t_def)
    next
      case (iss q1 outs us)
      then show ?thesis using i pp ne sup False unfolding d by (auto simp: inv_empty_def t_def)
    qed
  qed
qed

lemma inv_empty_Ask:
  assumes i: "inv_empty a s" and w: "wf a s" and o: "inv_out a s" and l: "inv_late a s" and sl: "inv_sel a s"
    and p: "pending_of (AskReturn xs) \<in> set (pendings s)"
  shows "inv_empty a (deliver a s (AskReturn xs))"
proof -
  have pp: "PAsk \<in> set (pendings s)" using p by simp
  have ne: "pendings s \<noteq> []" using p by auto
  note g = wf_PAsk [OF w pp] wf_results [OF w] 
  note sup = inv_out_None [OF o] inv_sel_getUtxos [OF sl]
  show ?thesis
  proof (cases "hasError s")
    case True
    then show ?thesis using i pp ne sup by (auto simp: deliver_def inv_empty_def)
  next
    case False
    define t where "t = s\<lparr>pendings := removeAll PAsk (pendings s), r_utxos := Some xs\<rparr>"
    have d: "deliver a s (AskReturn xs) = finish (try_fund a t)"
      using False p by (simp add: deliver_def t_def complete_utxos_def)
    show ?thesis
    proof (cases rule: try_fund_cases [of a t])
      case same
      then show ?thesis using i pp ne sup False unfolding d by (auto simp: inv_empty_def t_def)
    next
      case (dust q1 outs us)
      then show ?thesis using i pp ne sup False unfolding d by (auto simp: inv_empty_def t_def)
    next
      case (iss q1 outs us)
      then show ?thesis using i pp ne sup False unfolding d by (auto simp: inv_empty_def t_def)
    qed
  qed
qed

lemma inv_empty_UtxR:
  assumes i: "inv_empty a s" and w: "wf a s" and o: "inv_out a s" and l: "inv_late a s" and sl: "inv_sel a s"
    and p: "pending_of (UtxosReturn (Inr g')) \<in> set (pendings s)"
  shows "inv_empty a (deliver a s (UtxosReturn (Inr g')))"
proof -
  have pp: "PUtxos \<in> set (pendings s)" using p by simp
  have ne: "pendings s \<noteq> []" using p by auto
  note g = wf_PUtxos [OF w pp] wf_results [OF w] 
  note sup = inv_out_None [OF o] inv_late_PUtxos [OF l] inv_sel_PUtxos [OF sl pp] validate_selecting_given [OF inv_sel_validate [OF sl ne]]
  show ?thesis
  proof (cases "hasError s")
    case True
    then show ?thesis using i pp ne sup by (auto simp: deliver_def inv_empty_def)
  next
    case False
    define t where "t = s\<lparr>pendings := removeAll PUtxos (pendings s), r_getUtxos := Some (Some g')\<rparr>"
    have d: "deliver a s (UtxosReturn (Inr g')) = finish (utxos a (Some g') t)"
      using False p by (simp add: deliver_def t_def)
    show ?thesis
    proof (cases rule: utxos_cases [of a g' t])
      case empty
      then show ?thesis using i pp ne sup False unfolding d by (auto simp: inv_empty_def t_def)
    next
      case ask
      then show ?thesis using i pp ne sup False unfolding d by (auto simp: inv_empty_def t_def)
    next
      case explicit
      define u where "u = t\<lparr>r_utxos := Some (given_utxos a)\<rparr>"
      have d: "deliver a s (UtxosReturn (Inr g')) = finish (try_fund a u)"
        using d explicit by (simp add: u_def)
      show ?thesis
      proof (cases rule: try_fund_cases [of a u])
        case same
        then show ?thesis using i pp ne sup False explicit(1) t_def unfolding d by (auto simp: inv_empty_def u_def)
      next
        case (dust q1 outs us)
        then show ?thesis using i pp ne sup False explicit(1) t_def unfolding d by (auto simp: inv_empty_def u_def)
      next
        case (iss q1 outs us)
        then show ?thesis using i pp ne sup False explicit(1) t_def unfolding d by (auto simp: inv_empty_def u_def)
      qed
    next
      case auto_select
      define u where "u = t\<lparr>r_utxos := Some []\<rparr>"
      have d: "deliver a s (UtxosReturn (Inr g')) = finish (try_fund a u)"
        using d auto_select by (simp add: u_def)
      show ?thesis
      proof (cases rule: try_fund_cases [of a u])
        case same
        then show ?thesis using i pp ne sup False auto_select(1,2) t_def unfolding d by (auto simp: inv_empty_def u_def)
      next
        case (dust q1 outs us)
        then show ?thesis using i pp ne sup False auto_select(1,2) t_def unfolding d by (auto simp: inv_empty_def u_def)
      next
        case (iss q1 outs us)
        then show ?thesis using i pp ne sup False auto_select(1,2) t_def unfolding d by (auto simp: inv_empty_def u_def)
      qed
    qed
  qed
qed

lemma inv_empty_deliver:
  assumes i: "inv_empty a s" and w: "wf a s" and o: "inv_out a s" and l: "inv_late a s" and sl: "inv_sel a s"
  shows "inv_empty a (deliver a s r)"
proof (cases "pending_of r \<in> set (pendings s)")
  case False
  with i show ?thesis by (simp add: deliver_def)
next
  case True
  show ?thesis
  proof (cases r)
    case (FeeReturn x)
    with i w o l sl True show ?thesis by (cases x) (simp_all add: inv_empty_FeeL inv_empty_FeeR)
  next
    case (UtxosReturn x)
    with i w o l sl True show ?thesis by (cases x) (simp_all add: inv_empty_UtxL inv_empty_UtxR)
  next
    case (AskReturn x)
    with i w o l sl True show ?thesis by (simp add: inv_empty_Ask)
  next
    case (FundReturn x)
    with i w o l sl True show ?thesis by (cases x) (simp_all add: inv_empty_FundL inv_empty_FundR)
  next
    case (UnlockReturn n x)
    with i w o l sl True show ?thesis by (cases x) (simp_all add: inv_empty_UnlR inv_empty_UnlL)
  next
    case (SignReturn x)
    with i w o l sl True show ?thesis by (cases x) (simp_all add: inv_empty_SignL inv_empty_SignR)
  qed
qed

subsection \<open>The fee query\<close>

lemma inv_fee_FeeL:
  assumes i: "inv_fee a s" and w: "wf a s"
    and p: "pending_of (FeeReturn (Inl e)) \<in> set (pendings s)"
  shows "inv_fee a (deliver a s (FeeReturn (Inl e)))"
proof -
  have pp: "PFee \<in> set (pendings s)" using p by simp
  have ne: "pendings s \<noteq> []" using p by auto
  note g = wf_PFee [OF w pp] wf_results [OF w] 
  note sup = TrueI
  show ?thesis
    using i pp ne
    by (cases "hasError s")
       (auto simp: deliver_def inv_fee_def external_def after_fund_def unlock_def sign_def Let_def unlock_call_def)
qed

lemma inv_fee_UtxL:
  assumes i: "inv_fee a s" and w: "wf a s"
    and p: "pending_of (UtxosReturn (Inl e)) \<in> set (pendings s)"
  shows "inv_fee a (deliver a s (UtxosReturn (Inl e)))"
proof -
  have pp: "PUtxos \<in> set (pendings s)" using p by simp
  have ne: "pendings s \<noteq> []" using p by auto
  note g = wf_PUtxos [OF w pp] wf_results [OF w] 
  note sup = TrueI
  show ?thesis
    using i pp ne
    by (cases "hasError s")
       (auto simp: deliver_def inv_fee_def external_def after_fund_def unlock_def sign_def Let_def unlock_call_def)
qed

lemma inv_fee_FundL:
  assumes i: "inv_fee a s" and w: "wf a s"
    and p: "pending_of (FundReturn (Inl e)) \<in> set (pendings s)"
  shows "inv_fee a (deliver a s (FundReturn (Inl e)))"
proof -
  have pp: "PFund \<in> set (pendings s)" using p by simp
  have ne: "pendings s \<noteq> []" using p by auto
  note g = wf_PFund [OF w pp] wf_results [OF w] 
  note sup = TrueI
  show ?thesis
    using i pp ne
    by (cases "hasError s")
       (auto simp: deliver_def inv_fee_def external_def after_fund_def unlock_def sign_def Let_def unlock_call_def)
qed

lemma inv_fee_UnlL:
  assumes i: "inv_fee a s" and w: "wf a s"
    and p: "pending_of (UnlockReturn n (Some e)) \<in> set (pendings s)"
  shows "inv_fee a (deliver a s (UnlockReturn n (Some e)))"
proof -
  have pp: "PUnlock n \<in> set (pendings s)" using p by simp
  have ne: "pendings s \<noteq> []" using p by auto
  note g = wf_PUnlock [OF w pp] wf_results [OF w] 
  note sup = TrueI
  show ?thesis
    using i pp ne
    by (cases "hasError s")
       (auto simp: deliver_def inv_fee_def external_def after_fund_def unlock_def sign_def Let_def unlock_call_def)
qed

lemma inv_fee_SignL:
  assumes i: "inv_fee a s" and w: "wf a s"
    and p: "pending_of (SignReturn (Inl e)) \<in> set (pendings s)"
  shows "inv_fee a (deliver a s (SignReturn (Inl e)))"
proof -
  have pp: "PSign \<in> set (pendings s)" using p by simp
  have ne: "pendings s \<noteq> []" using p by auto
  note g = wf_PSign [OF w pp] wf_results [OF w] 
  note sup = TrueI
  show ?thesis
    using i pp ne
    by (cases "hasError s")
       (auto simp: deliver_def inv_fee_def external_def after_fund_def unlock_def sign_def Let_def unlock_call_def)
qed

lemma inv_fee_SignR:
  assumes i: "inv_fee a s" and w: "wf a s"
    and p: "pending_of (SignReturn (Inr t)) \<in> set (pendings s)"
  shows "inv_fee a (deliver a s (SignReturn (Inr t)))"
proof -
  have pp: "PSign \<in> set (pendings s)" using p by simp
  have ne: "pendings s \<noteq> []" using p by auto
  note g = wf_PSign [OF w pp] wf_results [OF w] 
  note sup = TrueI
  show ?thesis
    using i pp ne
    by (cases "hasError s")
       (auto simp: deliver_def inv_fee_def external_def after_fund_def unlock_def sign_def Let_def unlock_call_def)
qed

lemma inv_fee_UnlR:
  assumes i: "inv_fee a s" and w: "wf a s"
    and p: "pending_of (UnlockReturn n None) \<in> set (pendings s)"
  shows "inv_fee a (deliver a s (UnlockReturn n None))"
proof -
  have pp: "PUnlock n \<in> set (pendings s)" using p by simp
  have ne: "pendings s \<noteq> []" using p by auto
  note g = wf_PUnlock [OF w pp] wf_results [OF w] 
  note sup = TrueI
  show ?thesis
    using i pp ne
    by (cases "hasError s")
       (auto simp: deliver_def inv_fee_def external_def after_fund_def unlock_def sign_def Let_def unlock_call_def)
qed

lemma inv_fee_FundR:
  assumes i: "inv_fee a s" and w: "wf a s"
    and p: "pending_of (FundReturn (Inr f)) \<in> set (pendings s)"
  shows "inv_fee a (deliver a s (FundReturn (Inr f)))"
proof -
  have pp: "PFund \<in> set (pendings s)" using p by simp
  have ne: "pendings s \<noteq> []" using p by auto
  note g = wf_PFund [OF w pp] wf_results [OF w] 
  note sup = TrueI
  show ?thesis
    using i pp ne
    by (cases "hasError s")
       (auto simp: deliver_def inv_fee_def external_def after_fund_def unlock_def sign_def Let_def unlock_call_def)
qed

lemma inv_fee_FeeR:
  assumes i: "inv_fee a s" and w: "wf a s"
    and p: "pending_of (FeeReturn (Inr q)) \<in> set (pendings s)"
  shows "inv_fee a (deliver a s (FeeReturn (Inr q)))"
proof -
  have pp: "PFee \<in> set (pendings s)" using p by simp
  have ne: "pendings s \<noteq> []" using p by auto
  note g = wf_PFee [OF w pp] wf_results [OF w] 
  note sup = TrueI
  show ?thesis
  proof (cases "hasError s")
    case True
    then show ?thesis using i pp ne by (auto simp: deliver_def inv_fee_def)
  next
    case False
    define t where "t = s\<lparr>pendings := removeAll PFee (pendings s), r_getFee := Some q\<rparr>"
    have d: "deliver a s (FeeReturn (Inr q)) = finish (try_fund a t)"
      using False p by (simp add: deliver_def t_def)
    show ?thesis
    proof (cases rule: try_fund_cases [of a t])
      case same
      then show ?thesis using i pp ne False unfolding d by (auto simp: inv_fee_def t_def)
    next
      case (dust q1 outs us)
      then show ?thesis using i pp ne False unfolding d by (auto simp: inv_fee_def t_def)
    next
      case (iss q1 outs us)
      then show ?thesis using i pp ne False unfolding d by (auto simp: inv_fee_def t_def)
    qed
  qed
qed

lemma inv_fee_Ask:
  assumes i: "inv_fee a s" and w: "wf a s"
    and p: "pending_of (AskReturn xs) \<in> set (pendings s)"
  shows "inv_fee a (deliver a s (AskReturn xs))"
proof -
  have pp: "PAsk \<in> set (pendings s)" using p by simp
  have ne: "pendings s \<noteq> []" using p by auto
  note g = wf_PAsk [OF w pp] wf_results [OF w] 
  note sup = TrueI
  show ?thesis
  proof (cases "hasError s")
    case True
    then show ?thesis using i pp ne by (auto simp: deliver_def inv_fee_def)
  next
    case False
    define t where "t = s\<lparr>pendings := removeAll PAsk (pendings s), r_utxos := Some xs\<rparr>"
    have d: "deliver a s (AskReturn xs) = finish (try_fund a t)"
      using False p by (simp add: deliver_def t_def complete_utxos_def)
    show ?thesis
    proof (cases rule: try_fund_cases [of a t])
      case same
      then show ?thesis using i pp ne False unfolding d by (auto simp: inv_fee_def t_def)
    next
      case (dust q1 outs us)
      then show ?thesis using i pp ne False unfolding d by (auto simp: inv_fee_def t_def)
    next
      case (iss q1 outs us)
      then show ?thesis using i pp ne False unfolding d by (auto simp: inv_fee_def t_def)
    qed
  qed
qed

lemma inv_fee_UtxR:
  assumes i: "inv_fee a s" and w: "wf a s"
    and p: "pending_of (UtxosReturn (Inr g')) \<in> set (pendings s)"
  shows "inv_fee a (deliver a s (UtxosReturn (Inr g')))"
proof -
  have pp: "PUtxos \<in> set (pendings s)" using p by simp
  have ne: "pendings s \<noteq> []" using p by auto
  note g = wf_PUtxos [OF w pp] wf_results [OF w] 
  note sup = TrueI
  show ?thesis
  proof (cases "hasError s")
    case True
    then show ?thesis using i pp ne by (auto simp: deliver_def inv_fee_def)
  next
    case False
    define t where "t = s\<lparr>pendings := removeAll PUtxos (pendings s), r_getUtxos := Some (Some g')\<rparr>"
    have d: "deliver a s (UtxosReturn (Inr g')) = finish (utxos a (Some g') t)"
      using False p by (simp add: deliver_def t_def)
    show ?thesis
    proof (cases rule: utxos_cases [of a g' t])
      case empty
      then show ?thesis using i pp ne False unfolding d by (auto simp: inv_fee_def t_def)
    next
      case ask
      then show ?thesis using i pp ne False unfolding d by (auto simp: inv_fee_def t_def)
    next
      case explicit
      define u where "u = t\<lparr>r_utxos := Some (given_utxos a)\<rparr>"
      have d: "deliver a s (UtxosReturn (Inr g')) = finish (try_fund a u)"
        using d explicit by (simp add: u_def)
      show ?thesis
      proof (cases rule: try_fund_cases [of a u])
        case same
        then show ?thesis using i pp ne False explicit(1) t_def unfolding d by (auto simp: inv_fee_def u_def)
      next
        case (dust q1 outs us)
        then show ?thesis using i pp ne False explicit(1) t_def unfolding d by (auto simp: inv_fee_def u_def)
      next
        case (iss q1 outs us)
        then show ?thesis using i pp ne False explicit(1) t_def unfolding d by (auto simp: inv_fee_def u_def)
      qed
    next
      case auto_select
      define u where "u = t\<lparr>r_utxos := Some []\<rparr>"
      have d: "deliver a s (UtxosReturn (Inr g')) = finish (try_fund a u)"
        using d auto_select by (simp add: u_def)
      show ?thesis
      proof (cases rule: try_fund_cases [of a u])
        case same
        then show ?thesis using i pp ne False auto_select(1,2) t_def unfolding d by (auto simp: inv_fee_def u_def)
      next
        case (dust q1 outs us)
        then show ?thesis using i pp ne False auto_select(1,2) t_def unfolding d by (auto simp: inv_fee_def u_def)
      next
        case (iss q1 outs us)
        then show ?thesis using i pp ne False auto_select(1,2) t_def unfolding d by (auto simp: inv_fee_def u_def)
      qed
    qed
  qed
qed

lemma inv_fee_deliver:
  assumes i: "inv_fee a s" and w: "wf a s"
  shows "inv_fee a (deliver a s r)"
proof (cases "pending_of r \<in> set (pendings s)")
  case False
  with i show ?thesis by (simp add: deliver_def)
next
  case True
  show ?thesis
  proof (cases r)
    case (FeeReturn x)
    with i w  True show ?thesis by (cases x) (simp_all add: inv_fee_FeeL inv_fee_FeeR)
  next
    case (UtxosReturn x)
    with i w  True show ?thesis by (cases x) (simp_all add: inv_fee_UtxL inv_fee_UtxR)
  next
    case (AskReturn x)
    with i w  True show ?thesis by (simp add: inv_fee_Ask)
  next
    case (FundReturn x)
    with i w  True show ?thesis by (cases x) (simp_all add: inv_fee_FundL inv_fee_FundR)
  next
    case (UnlockReturn n x)
    with i w  True show ?thesis by (cases x) (simp_all add: inv_fee_UnlR inv_fee_UnlL)
  next
    case (SignReturn x)
    with i w  True show ?thesis by (cases x) (simp_all add: inv_fee_SignL inv_fee_SignR)
  qed
qed

subsection \<open>Progress\<close>

lemma inv_run_FeeL:
  assumes i: "inv_run a s" and w: "wf a s" and o: "inv_out a s"
    and p: "pending_of (FeeReturn (Inl e)) \<in> set (pendings s)"
  shows "inv_run a (deliver a s (FeeReturn (Inl e)))"
proof -
  have pp: "PFee \<in> set (pendings s)" using p by simp
  have ne: "pendings s \<noteq> []" using p by auto
  note g = wf_PFee [OF w pp] wf_results [OF w] 
  note sup = inv_out_None [OF o]
  show ?thesis
    using i g pp ne sup
    by (cases "hasError s")
       (auto simp: deliver_def inv_run_def external_def after_fund_def unlock_def sign_def Let_def unlock_call_def dest: removeAll_Nil_D)
qed

lemma inv_run_UtxL:
  assumes i: "inv_run a s" and w: "wf a s" and o: "inv_out a s"
    and p: "pending_of (UtxosReturn (Inl e)) \<in> set (pendings s)"
  shows "inv_run a (deliver a s (UtxosReturn (Inl e)))"
proof -
  have pp: "PUtxos \<in> set (pendings s)" using p by simp
  have ne: "pendings s \<noteq> []" using p by auto
  note g = wf_PUtxos [OF w pp] wf_results [OF w] 
  note sup = inv_out_None [OF o]
  show ?thesis
    using i g pp ne sup
    by (cases "hasError s")
       (auto simp: deliver_def inv_run_def external_def after_fund_def unlock_def sign_def Let_def unlock_call_def dest: removeAll_Nil_D)
qed

lemma inv_run_FundL:
  assumes i: "inv_run a s" and w: "wf a s" and o: "inv_out a s"
    and p: "pending_of (FundReturn (Inl e)) \<in> set (pendings s)"
  shows "inv_run a (deliver a s (FundReturn (Inl e)))"
proof -
  have pp: "PFund \<in> set (pendings s)" using p by simp
  have ne: "pendings s \<noteq> []" using p by auto
  note g = wf_PFund [OF w pp] wf_results [OF w] 
  note sup = inv_out_None [OF o]
  show ?thesis
    using i g pp ne sup
    by (cases "hasError s")
       (auto simp: deliver_def inv_run_def external_def after_fund_def unlock_def sign_def Let_def unlock_call_def dest: removeAll_Nil_D)
qed

lemma inv_run_UnlL:
  assumes i: "inv_run a s" and w: "wf a s" and o: "inv_out a s"
    and p: "pending_of (UnlockReturn n (Some e)) \<in> set (pendings s)"
  shows "inv_run a (deliver a s (UnlockReturn n (Some e)))"
proof -
  have pp: "PUnlock n \<in> set (pendings s)" using p by simp
  have ne: "pendings s \<noteq> []" using p by auto
  note g = wf_PUnlock [OF w pp] wf_results [OF w] 
  note sup = inv_out_None [OF o]
  show ?thesis
    using i g pp ne sup
    by (cases "hasError s")
       (auto simp: deliver_def inv_run_def external_def after_fund_def unlock_def sign_def Let_def unlock_call_def dest: removeAll_Nil_D)
qed

lemma inv_run_SignL:
  assumes i: "inv_run a s" and w: "wf a s" and o: "inv_out a s"
    and p: "pending_of (SignReturn (Inl e)) \<in> set (pendings s)"
  shows "inv_run a (deliver a s (SignReturn (Inl e)))"
proof -
  have pp: "PSign \<in> set (pendings s)" using p by simp
  have ne: "pendings s \<noteq> []" using p by auto
  note g = wf_PSign [OF w pp] wf_results [OF w] 
  note sup = inv_out_None [OF o] inv_out_failed [OF o]
  show ?thesis
    using i g pp ne sup
    by (cases "hasError s")
       (auto simp: deliver_def inv_run_def external_def after_fund_def unlock_def sign_def Let_def unlock_call_def dest: removeAll_Nil_D)
qed

lemma inv_run_SignR:
  assumes i: "inv_run a s" and w: "wf a s" and o: "inv_out a s"
    and p: "pending_of (SignReturn (Inr t)) \<in> set (pendings s)"
  shows "inv_run a (deliver a s (SignReturn (Inr t)))"
proof -
  have pp: "PSign \<in> set (pendings s)" using p by simp
  have ne: "pendings s \<noteq> []" using p by auto
  note g = wf_PSign [OF w pp] wf_results [OF w] 
  note sup = inv_out_None [OF o] inv_out_failed [OF o]
  show ?thesis
    using i g pp ne sup
    by (cases "hasError s")
       (auto simp: deliver_def inv_run_def external_def after_fund_def unlock_def sign_def Let_def unlock_call_def dest: removeAll_Nil_D)
qed

lemma inv_run_UnlR:
  assumes i: "inv_run a s" and w: "wf a s" and o: "inv_out a s"
    and p: "pending_of (UnlockReturn n None) \<in> set (pendings s)"
  shows "inv_run a (deliver a s (UnlockReturn n None))"
proof -
  have pp: "PUnlock n \<in> set (pendings s)" using p by simp
  have ne: "pendings s \<noteq> []" using p by auto
  note g = wf_PUnlock [OF w pp] wf_results [OF w] 
  note sup = inv_out_None [OF o]
  show ?thesis
    using i g pp ne sup
    by (cases "hasError s")
       (auto simp: deliver_def inv_run_def external_def after_fund_def unlock_def sign_def Let_def unlock_call_def dest: removeAll_Nil_D)
qed

lemma inv_run_FundR:
  assumes i: "inv_run a s" and w: "wf a s" and o: "inv_out a s"
    and p: "pending_of (FundReturn (Inr f)) \<in> set (pendings s)"
  shows "inv_run a (deliver a s (FundReturn (Inr f)))"
proof -
  have pp: "PFund \<in> set (pendings s)" using p by simp
  have ne: "pendings s \<noteq> []" using p by auto
  note g = wf_PFund [OF w pp] wf_results [OF w] 
  note sup = inv_out_None [OF o]
  show ?thesis
    using i g pp ne sup
    by (cases "hasError s")
       (auto simp: deliver_def inv_run_def external_def after_fund_def unlock_def sign_def Let_def unlock_call_def dest: removeAll_Nil_D)
qed

lemma inv_run_FeeR:
  assumes i: "inv_run a s" and w: "wf a s" and o: "inv_out a s"
    and p: "pending_of (FeeReturn (Inr q)) \<in> set (pendings s)"
  shows "inv_run a (deliver a s (FeeReturn (Inr q)))"
proof -
  have pp: "PFee \<in> set (pendings s)" using p by simp
  have ne: "pendings s \<noteq> []" using p by auto
  note g = wf_PFee [OF w pp] wf_results [OF w] 
  note sup = inv_out_None [OF o]
  show ?thesis
  proof (cases "hasError s")
    case True
    then show ?thesis using i g pp ne sup by (auto simp: deliver_def inv_run_def dest: removeAll_Nil_D)
  next
    case False
    define t where "t = s\<lparr>pendings := removeAll PFee (pendings s), r_getFee := Some q\<rparr>"
    have d: "deliver a s (FeeReturn (Inr q)) = finish (try_fund a t)"
      using False p by (simp add: deliver_def t_def)
    show ?thesis
    proof (cases rule: try_fund_cases [of a t])
      case same
      then show ?thesis using i g pp ne sup False unfolding d by (auto simp: inv_run_def t_def dest: removeAll_Nil_D)
    next
      case (dust q1 outs us)
      then show ?thesis using i g pp ne sup False unfolding d by (auto simp: inv_run_def t_def dest: removeAll_Nil_D)
    next
      case (iss q1 outs us)
      then show ?thesis using i g pp ne sup False unfolding d by (auto simp: inv_run_def t_def dest: removeAll_Nil_D)
    qed
  qed
qed

lemma inv_run_Ask:
  assumes i: "inv_run a s" and w: "wf a s" and o: "inv_out a s"
    and p: "pending_of (AskReturn xs) \<in> set (pendings s)"
  shows "inv_run a (deliver a s (AskReturn xs))"
proof -
  have pp: "PAsk \<in> set (pendings s)" using p by simp
  have ne: "pendings s \<noteq> []" using p by auto
  note g = wf_PAsk [OF w pp] wf_results [OF w] 
  note sup = inv_out_None [OF o]
  show ?thesis
  proof (cases "hasError s")
    case True
    then show ?thesis using i g pp ne sup by (auto simp: deliver_def inv_run_def dest: removeAll_Nil_D)
  next
    case False
    define t where "t = s\<lparr>pendings := removeAll PAsk (pendings s), r_utxos := Some xs\<rparr>"
    have d: "deliver a s (AskReturn xs) = finish (try_fund a t)"
      using False p by (simp add: deliver_def t_def complete_utxos_def)
    show ?thesis
    proof (cases rule: try_fund_cases [of a t])
      case same
      then show ?thesis using i g pp ne sup False unfolding d by (auto simp: inv_run_def t_def dest: removeAll_Nil_D)
    next
      case (dust q1 outs us)
      then show ?thesis using i g pp ne sup False unfolding d by (auto simp: inv_run_def t_def dest: removeAll_Nil_D)
    next
      case (iss q1 outs us)
      then show ?thesis using i g pp ne sup False unfolding d by (auto simp: inv_run_def t_def dest: removeAll_Nil_D)
    qed
  qed
qed

lemma inv_run_UtxR:
  assumes i: "inv_run a s" and w: "wf a s" and o: "inv_out a s"
    and p: "pending_of (UtxosReturn (Inr g')) \<in> set (pendings s)"
  shows "inv_run a (deliver a s (UtxosReturn (Inr g')))"
proof -
  have pp: "PUtxos \<in> set (pendings s)" using p by simp
  have ne: "pendings s \<noteq> []" using p by auto
  note g = wf_PUtxos [OF w pp] wf_results [OF w] 
  note sup = inv_out_None [OF o]
  show ?thesis
  proof (cases "hasError s")
    case True
    then show ?thesis using i g pp ne sup by (auto simp: deliver_def inv_run_def dest: removeAll_Nil_D)
  next
    case False
    define t where "t = s\<lparr>pendings := removeAll PUtxos (pendings s), r_getUtxos := Some (Some g')\<rparr>"
    have d: "deliver a s (UtxosReturn (Inr g')) = finish (utxos a (Some g') t)"
      using False p by (simp add: deliver_def t_def)
    show ?thesis
    proof (cases rule: utxos_cases [of a g' t])
      case empty
      then show ?thesis using i g pp ne sup False unfolding d by (auto simp: inv_run_def t_def dest: removeAll_Nil_D)
    next
      case ask
      then show ?thesis using i g pp ne sup False unfolding d by (auto simp: inv_run_def t_def dest: removeAll_Nil_D)
    next
      case explicit
      define u where "u = t\<lparr>r_utxos := Some (given_utxos a)\<rparr>"
      have d: "deliver a s (UtxosReturn (Inr g')) = finish (try_fund a u)"
        using d explicit by (simp add: u_def)
      show ?thesis
      proof (cases rule: try_fund_cases [of a u])
        case same
        then show ?thesis using i g pp ne sup False explicit(1) t_def unfolding d by (auto simp: inv_run_def u_def dest: removeAll_Nil_D)
      next
        case (dust q1 outs us)
        then show ?thesis using i g pp ne sup False explicit(1) t_def unfolding d by (auto simp: inv_run_def u_def dest: removeAll_Nil_D)
      next
        case (iss q1 outs us)
        then show ?thesis using i g pp ne sup False explicit(1) t_def unfolding d by (auto simp: inv_run_def u_def dest: removeAll_Nil_D)
      qed
    next
      case auto_select
      define u where "u = t\<lparr>r_utxos := Some []\<rparr>"
      have d: "deliver a s (UtxosReturn (Inr g')) = finish (try_fund a u)"
        using d auto_select by (simp add: u_def)
      show ?thesis
      proof (cases rule: try_fund_cases [of a u])
        case same
        then show ?thesis using i g pp ne sup False auto_select(1,2) t_def unfolding d by (auto simp: inv_run_def u_def dest: removeAll_Nil_D)
      next
        case (dust q1 outs us)
        then show ?thesis using i g pp ne sup False auto_select(1,2) t_def unfolding d by (auto simp: inv_run_def u_def dest: removeAll_Nil_D)
      next
        case (iss q1 outs us)
        then show ?thesis using i g pp ne sup False auto_select(1,2) t_def unfolding d by (auto simp: inv_run_def u_def dest: removeAll_Nil_D)
      qed
    qed
  qed
qed

lemma inv_run_deliver:
  assumes i: "inv_run a s" and w: "wf a s" and o: "inv_out a s"
  shows "inv_run a (deliver a s r)"
proof (cases "pending_of r \<in> set (pendings s)")
  case False
  with i show ?thesis by (simp add: deliver_def)
next
  case True
  show ?thesis
  proof (cases r)
    case (FeeReturn x)
    with i w o True show ?thesis by (cases x) (simp_all add: inv_run_FeeL inv_run_FeeR)
  next
    case (UtxosReturn x)
    with i w o True show ?thesis by (cases x) (simp_all add: inv_run_UtxL inv_run_UtxR)
  next
    case (AskReturn x)
    with i w o True show ?thesis by (simp add: inv_run_Ask)
  next
    case (FundReturn x)
    with i w o True show ?thesis by (cases x) (simp_all add: inv_run_FundL inv_run_FundR)
  next
    case (UnlockReturn n x)
    with i w o True show ?thesis by (cases x) (simp_all add: inv_run_UnlR inv_run_UnlL)
  next
    case (SignReturn x)
    with i w o True show ?thesis by (cases x) (simp_all add: inv_run_SignL inv_run_SignR)
  qed
qed

subsection \<open>The start of an invocation\<close>

lemma derive_outputs_no_ask:
  assumes "derive_outputs pa xs = (cs, r)"
  shows "filter is_ask cs = []"
  using derive_outputs_calls [OF assms] by (auto simp: filter_empty_conv list_all_iff)

lemma start_cases [case_names invalid parse auto_select select]:
  obtains
    (invalid) m where "validate a = Some (Precondition m)" "start a pa = fail (Precondition m) init"
  | (parse) cs msg where "validate a = None"
      "filter is_ask cs = []" "filter is_fund cs = []"
      "start a pa = fail (AmountParse msg) (issue cs [] (issue [GetChainFeeRate] [PFee] init))"
  | (auto_select) cs outs where "validate a = None" "\<not> arg_is_selecting_utxos a"
      "filter is_ask cs = []" "filter is_fund cs = []"
      "start a pa = (issue cs [] (issue [GetChainFeeRate] [PFee] init))
         \<lparr>r_outputs := Some outs, r_getUtxos := Some None, r_utxos := Some (given_utxos a)\<rparr>"
  | (select) cs outs where "validate a = None" "arg_is_selecting_utxos a" "given_utxos a = []"
      "filter is_ask cs = []" "filter is_fund cs = []"
      "start a pa = issue [GetUtxos minConfs] [PUtxos]
         ((issue cs [] (issue [GetChainFeeRate] [PFee] init))\<lparr>r_outputs := Some outs\<rparr>)"
proof (cases "validate a")
  case (Some e)
  then obtain m where "e = Precondition m" using validate_Precondition by blast
  with Some show ?thesis using invalid [of m] by (simp add: start_def)
next
  case None
  obtain cs r where d: "derive_outputs pa (zip (case arg_addresses a of None \<Rightarrow> [] | Some ads \<Rightarrow> ads)
                  (case arg_amounts a of None \<Rightarrow> [] | Some ams \<Rightarrow> ams)) = (cs, r)"
    by (cases "derive_outputs pa (zip (case arg_addresses a of None \<Rightarrow> [] | Some ads \<Rightarrow> ads)
                  (case arg_amounts a of None \<Rightarrow> [] | Some ams \<Rightarrow> ams))") auto
  note f = derive_outputs_no_ask [OF d] derive_outputs_filters(1) [OF d]
  show ?thesis
  proof (cases r)
    case (Inl msg)
    then show ?thesis using parse [OF None f, of msg] None d
      by (simp add: start_def outputs_def)
  next
    case (Inr outs)
    show ?thesis
    proof (cases "arg_is_selecting_utxos a")
      case True
      then show ?thesis
        using select [OF None True validate_selecting_given [OF None True] f, of outs] None d Inr
        by (simp add: start_def outputs_def getUtxos_def)
    next
      case False
      have "given_utxos a = [] \<or> given_utxos a \<noteq> []" by simp
      then show ?thesis
        using auto_select [OF None False f, of outs] None d Inr False
        by (auto simp: start_def outputs_def getUtxos_def utxos_def complete_utxos_def
            try_fund_def init_def issue_def given_utxos_def Let_def)
    qed
  qed
qed

lemma inv_out_start: "inv_out a (start a pa)"
  by (cases rule: start_cases [of a pa]) (simp_all add: inv_out_def init_def)

lemma inv_late_start: "inv_late a (start a pa)"
  by (cases rule: start_cases [of a pa]) (simp_all add: inv_late_def init_def)

lemma inv_dust_start: "inv_dust a (start a pa)"
  by (cases rule: start_cases [of a pa]) (simp_all add: inv_dust_def init_def)

lemma inv_sel_start: "inv_sel a (start a pa)"
  by (cases rule: start_cases [of a pa]) (simp_all add: inv_sel_def init_def)

lemma inv_empty_start: "inv_empty a (start a pa)"
  by (cases rule: start_cases [of a pa]) (simp_all add: inv_empty_def init_def)

lemma inv_fee_start: "inv_fee a (start a pa)"
  by (cases rule: start_cases [of a pa]) (simp_all add: inv_fee_def init_def)

lemma inv_run_start: "inv_run a (start a pa)"
  by (cases rule: start_cases [of a pa]) (simp_all add: inv_run_def init_def)

section \<open>The claims\<close>

subsection \<open>The invariants hold of every run\<close>

lemma invariants_run:
  "wf a (run a pa rs) \<and> inv_out a (run a pa rs) \<and> inv_late a (run a pa rs)
   \<and> inv_dust a (run a pa rs) \<and> inv_sel a (run a pa rs) \<and> inv_empty a (run a pa rs)
   \<and> inv_fee a (run a pa rs) \<and> inv_run a (run a pa rs)"
proof (rule run_invariant)
  show "wf a (start a pa) \<and> inv_out a (start a pa) \<and> inv_late a (start a pa)
   \<and> inv_dust a (start a pa) \<and> inv_sel a (start a pa) \<and> inv_empty a (start a pa)
   \<and> inv_fee a (start a pa) \<and> inv_run a (start a pa)"
    by (intro conjI wf_start inv_out_start inv_late_start inv_dust_start inv_sel_start
        inv_empty_start inv_fee_start inv_run_start)
next
  fix s r
  assume "wf a s \<and> inv_out a s \<and> inv_late a s \<and> inv_dust a s \<and> inv_sel a s \<and> inv_empty a s
    \<and> inv_fee a s \<and> inv_run a s"
  then have w: "wf a s" and o: "inv_out a s" and l: "inv_late a s" and d: "inv_dust a s"
    and sl: "inv_sel a s" and e: "inv_empty a s" and f: "inv_fee a s" and p: "inv_run a s"
    by simp_all
  show "wf a (deliver a s r) \<and> inv_out a (deliver a s r) \<and> inv_late a (deliver a s r)
    \<and> inv_dust a (deliver a s r) \<and> inv_sel a (deliver a s r) \<and> inv_empty a (deliver a s r)
    \<and> inv_fee a (deliver a s r) \<and> inv_run a (deliver a s r)"
    by (intro conjI wf_deliver [OF w] inv_out_deliver [OF o w] inv_late_deliver [OF l w o]
        inv_dust_deliver [OF d w o l] inv_sel_deliver [OF sl w] inv_empty_deliver [OF e w o l sl]
        inv_fee_deliver [OF f w] inv_run_deliver [OF p w o])
qed

lemmas eval_defs = run_def start_def validate_def outputs_def getUtxos_def utxos_def complete_utxos_def
  try_fund_def fund_def fee_of_def after_fund_def unlock_def sign_def deliver_def finish_def fail_def
  issue_def init_def external_def dustValue_def minConfs_def isPublicKey_def unlock_call_def sumOf_def
  Let_def

lemma dusty_iff: "dusty outs \<longleftrightarrow> (\<exists>n\<in>set outs. out_tokens n < dustValue)"
  by (auto simp: dusty_def filter_empty_conv)

lemma failed_external_iff: "failed_external r \<longleftrightarrow> (\<exists>c m. r = Some (Inl (External c m)))"
  by (auto elim: failed_external.elims)

lemma filter_is_ask_iff: "filter is_ask cs \<noteq> [] \<longleftrightarrow> (\<exists>ch. Ask ch \<in> set cs)"
  by (induction cs) (auto elim: is_ask.elims)

text \<open>
  C1. Once funding has succeeded, the unlock calls issued are exactly one per input of the
  funded transaction, in order, each with the input's lock identifier, transaction id and
  output index, when the request is a dry run, and the signing primitive has been called once,
  on the funded PSBT. Every invocation that succeeds has funded and signed. When the
  request is not a dry run, no unlock call is ever issued.
\<close>

theorem dry_run_unlocks_each_input_once:
  "(r_fund (run a pa rs) = Some f \<longrightarrow>
      filter is_unlock (trace (run a pa rs))
        = (if arg_is_dry_run a then map unlock_call (f_inputs f) else [])
      \<and> filter is_sign (trace (run a pa rs)) = [SignPsbt (f_psbt f)])
   \<and> (outcome (run a pa rs) = Some (Inr res) \<longrightarrow>
        (\<exists>g t. r_fund (run a pa rs) = Some g \<and> r_sign (run a pa rs) = Some t \<and> res = Some t))
   \<and> (\<not> arg_is_dry_run a \<longrightarrow> filter is_unlock (trace (run a pa rs)) = [])"
proof -
  let ?s = "run a pa rs"
  from invariants_run [of a pa rs] have w: "wf a ?s" and p: "inv_run a ?s" by simp_all
  have 1: "r_fund ?s = Some f \<longrightarrow>
      filter is_unlock (trace ?s) = (if arg_is_dry_run a then map unlock_call (f_inputs f) else [])
      \<and> filter is_sign (trace ?s) = [SignPsbt (f_psbt f)]"
    using w by (simp add: wf_def)
  have 2: "outcome ?s = Some (Inr res) \<longrightarrow>
        (\<exists>g t. r_fund ?s = Some g \<and> r_sign ?s = Some t \<and> res = Some t)"
    using p by (auto simp: inv_run_def)
  have 3: "\<not> arg_is_dry_run a \<longrightarrow> filter is_unlock (trace ?s) = []"
    using w by (cases "r_fund ?s") (simp_all add: wf_def)
  from 1 2 3 show ?thesis by (intro conjI)
qed

lemma run_dry:
  "run request_dry parse_100000 returns_dry =
     \<lparr>trace = [GetChainFeeRate, ParseAmount ''0.001'', LogFund 5 [(''addr1'', 100000)],
        FundPsbt \<lparr>fa_outputs = [\<lparr>out_address = ''addr1'', out_tokens = 100000\<rparr>],
          fa_inputs = None, fa_fee_tokens_per_vbyte = 5\<rparr>,
        UnlockUtxo ''lock1'' txid_ab 0, UnlockUtxo ''lock2'' txid_ab 1,
        LogSign (Some 5000) 105000 [asOutpoint txid_ab 0, asOutpoint txid_ab 1], SignPsbt ''70736274ff''],
      outcome = Some (Inr (Some ''0200'')), hasError = False, pendings = [],
      r_getFee = Some 5, r_outputs = Some [\<lparr>out_address = ''addr1'', out_tokens = 100000\<rparr>],
      r_getUtxos = Some None, r_utxos = Some [], r_fund = Some funded_two, r_unlock = True,
      r_sign = Some ''0200'', r_funded = Some ''0200'', unlocked = 2\<rparr>"
  by (simp add: request_dry_def request_def parse_100000_def returns_dry_def funded_two_def eval_defs)

theorem dry_run_unlocks_each_input_once_witness:
  "r_fund (run request_dry parse_100000 returns_dry) = Some funded_two
   \<and> outcome (run request_dry parse_100000 returns_dry) = Some (Inr (Some ''0200''))
   \<and> filter is_unlock (trace (run request_dry parse_100000 returns_dry))
       = [UnlockUtxo ''lock1'' txid_ab 0, UnlockUtxo ''lock2'' txid_ab 1]
   \<and> filter is_sign (trace (run request_dry parse_100000 returns_dry)) = [SignPsbt ''70736274ff'']
   \<and> \<not> arg_is_dry_run request
   \<and> filter is_unlock (trace (run request parse_100000 returns_dry)) = []"
proof -
  have f: "r_fund (run request_dry parse_100000 returns_dry) = Some funded_two"
    and o: "outcome (run request_dry parse_100000 returns_dry) = Some (Inr (Some ''0200''))"
    by (simp_all add: run_dry)
  have d: "arg_is_dry_run request_dry" "\<not> arg_is_dry_run request"
    by (simp_all add: request_dry_def request_def)
  from dry_run_unlocks_each_input_once [of request_dry parse_100000 returns_dry funded_two] f d
  have "filter is_unlock (trace (run request_dry parse_100000 returns_dry))
          = map unlock_call (f_inputs funded_two)
        \<and> filter is_sign (trace (run request_dry parse_100000 returns_dry))
          = [SignPsbt (f_psbt funded_two)]"
    by simp
  moreover from dry_run_unlocks_each_input_once [of request parse_100000 returns_dry] d
  have "filter is_unlock (trace (run request parse_100000 returns_dry)) = []"
    by simp
  ultimately show ?thesis using f o d
    by (simp add: funded_two_def unlock_call_def)
qed

text \<open>
  C3. In a run whose resolved outputs include one below the dust floor of 293, the funding
  primitive is never called and the invocation never succeeds; once the fee rate and the
  coin list are both resolved, the invocation has failed with the dust-output error.
\<close>

theorem dust_output_never_funded:
  assumes "r_outputs (run a pa rs) = Some outs"
    and "\<exists>n\<in>set outs. out_tokens n < dustValue"
  shows "(\<forall>fa. FundPsbt fa \<notin> set (trace (run a pa rs)))
    \<and> (\<forall>res. outcome (run a pa rs) \<noteq> Some (Inr res))
    \<and> (r_getFee (run a pa rs) \<noteq> None \<and> r_utxos (run a pa rs) \<noteq> None
         \<longrightarrow> outcome (run a pa rs) = Some (Inl DustOutput))"
proof -
  let ?s = "run a pa rs"
  from invariants_run [of a pa rs] have w: "wf a ?s" and d: "inv_dust a ?s" and p: "inv_run a ?s"
    by simp_all
  have dusty: "dusty (outs_of ?s)" using assms by (simp add: dusty_iff)
  have 1: "\<forall>fa. FundPsbt fa \<notin> set (trace ?s)"
    using d dusty by (auto simp: inv_dust_def filter_is_fund_empty)
  have 3: "r_getFee ?s \<noteq> None \<and> r_utxos ?s \<noteq> None \<longrightarrow> outcome ?s = Some (Inl DustOutput)"
    using d dusty by (simp add: inv_dust_def)
  have 2: "outcome ?s \<noteq> Some (Inr res)" for res
  proof
    assume "outcome ?s = Some (Inr res)"
    then have "r_fund ?s \<noteq> None" using p by (auto simp: inv_run_def)
    then have "r_getFee ?s \<noteq> None \<and> r_utxos ?s \<noteq> None" using wf_results(3) [OF w] by simp
    with 3 \<open>outcome ?s = Some (Inr res)\<close> show False by simp
  qed
  from 1 2 3 show ?thesis by blast
qed

theorem dust_output_never_funded_witness:
  "r_outputs (run request parse_200 [FeeReturn (Inr 5)]) = Some [\<lparr>out_address = ''addr1'', out_tokens = 200\<rparr>]
   \<and> (\<exists>n\<in>set [\<lparr>out_address = ''addr1'', out_tokens = 200\<rparr>]. out_tokens n < dustValue)
   \<and> r_getFee (run request parse_200 [FeeReturn (Inr 5)]) \<noteq> None
   \<and> r_utxos (run request parse_200 [FeeReturn (Inr 5)]) \<noteq> None
   \<and> outcome (run request parse_200 [FeeReturn (Inr 5)]) = Some (Inl DustOutput)
   \<and> (\<forall>fa. FundPsbt fa \<notin> set (trace (run request parse_200 [FeeReturn (Inr 5)])))"
proof -
  have h: "r_outputs (run request parse_200 [FeeReturn (Inr 5)])
             = Some [\<lparr>out_address = ''addr1'', out_tokens = 200\<rparr>]"
    "\<exists>n\<in>set [\<lparr>out_address = ''addr1'', out_tokens = 200\<rparr>]. out_tokens n < dustValue"
    by (simp_all add: request_def parse_200_def eval_defs)
  have g: "r_getFee (run request parse_200 [FeeReturn (Inr 5)]) \<noteq> None"
    "r_utxos (run request parse_200 [FeeReturn (Inr 5)]) \<noteq> None"
    by (simp_all add: request_def parse_200_def eval_defs)
  from dust_output_never_funded [OF h] g h show ?thesis by blast
qed

theorem dust_output_counterexample:
  "r_outputs (run request parse_200 [FeeReturn (Inl fee_error)])
     = Some [\<lparr>out_address = ''addr1'', out_tokens = 200\<rparr>]
   \<and> out_tokens \<lparr>out_address = ''addr1'', out_tokens = 200\<rparr> < 293
   \<and> outcome (run request parse_200 [FeeReturn (Inl fee_error)])
     = Some (Inl (External 503 ''UnexpectedErrorGettingFeeRate''))
   \<and> outcome (run request parse_200 [FeeReturn (Inl fee_error)]) \<noteq> Some (Inl DustOutput)"
  by (simp add: request_def parse_200_def fee_error_def eval_defs)

text \<open>
  C5. A caller-supplied fee rate other than zero is the rate passed to the funding
  primitive; without one, the rate passed is the rate the external fee estimation returned.
  The external fee estimation is queried in every request that passes validation, also when
  a rate is supplied, and the funding primitive is called only after it has returned.
\<close>

theorem fee_rate_passed_to_funding:
  assumes "FundPsbt fa \<in> set (trace (run a pa rs))"
  shows "(\<forall>f. arg_fee_tokens_per_vbyte a = Some f \<and> f \<noteq> 0 \<longrightarrow> fa_fee_tokens_per_vbyte fa = f)
    \<and> (arg_fee_tokens_per_vbyte a = None
         \<longrightarrow> r_getFee (run a pa rs) = Some (fa_fee_tokens_per_vbyte fa))
    \<and> r_getFee (run a pa rs) \<noteq> None
    \<and> GetChainFeeRate \<in> set (trace (run a pa rs))"
proof -
  let ?s = "run a pa rs"
  from invariants_run [of a pa rs] have w: "wf a ?s" and f: "inv_fee a ?s" and sl: "inv_sel a ?s"
    by simp_all
  from w assms have q: "r_getFee ?s \<noteq> None" and u: "r_utxos ?s \<noteq> None"
    and fa: "fa = fund_call a (the (r_getFee ?s)) (the (r_outputs ?s)) (the (r_utxos ?s))"
    by (simp_all add: wf_def)
  have v: "validate a = None" using sl u by (simp add: inv_sel_def)
  have g: "GetChainFeeRate \<in> set (trace ?s)" using f v by (simp add: inv_fee_def)
  have fee: "fa_fee_tokens_per_vbyte fa = fee_of (arg_fee_tokens_per_vbyte a) (the (r_getFee ?s))"
    by (subst fa) (simp add: fund_call_def)
  show ?thesis using q g fee by (auto simp: fee_of_def)
qed

theorem fee_rate_passed_to_funding_witness:
  "FundPsbt \<lparr>fa_outputs = [\<lparr>out_address = ''addr1'', out_tokens = 100000\<rparr>], fa_inputs = None,
       fa_fee_tokens_per_vbyte = 7\<rparr> \<in> set (trace (run (request_fee 7) parse_100000 [FeeReturn (Inr 5)]))
   \<and> arg_fee_tokens_per_vbyte (request_fee 7) = Some 7
   \<and> r_getFee (run (request_fee 7) parse_100000 [FeeReturn (Inr 5)]) = Some 5
   \<and> GetChainFeeRate \<in> set (trace (run (request_fee 7) parse_100000 [FeeReturn (Inr 5)]))"
proof -
  have h: "FundPsbt \<lparr>fa_outputs = [\<lparr>out_address = ''addr1'', out_tokens = 100000\<rparr>], fa_inputs = None,
       fa_fee_tokens_per_vbyte = 7\<rparr> \<in> set (trace (run (request_fee 7) parse_100000 [FeeReturn (Inr 5)]))"
    by (simp add: request_fee_def request_def parse_100000_def eval_defs)
  have q: "r_getFee (run (request_fee 7) parse_100000 [FeeReturn (Inr 5)]) = Some 5"
    "arg_fee_tokens_per_vbyte (request_fee 7) = Some 7"
    by (simp_all add: request_fee_def request_def parse_100000_def eval_defs)
  from fee_rate_passed_to_funding [OF h] h q show ?thesis by blast
qed

theorem fee_rate_counterexample:
  "arg_fee_tokens_per_vbyte (request_fee 7) = Some 7
   \<and> GetChainFeeRate \<in> set (trace (run (request_fee 7) parse_100000 []))"
  by (simp add: request_fee_def request_def parse_100000_def eval_defs)

text \<open>
  C6. Whenever the funding primitive is called, its inputs field is omitted when the resolved
  coin list is empty, and is the list of input records parsed from the resolved coins
  otherwise. With no explicit coins and no interactive selection the resolved list is empty,
  so the field is omitted; with explicit coins the field holds their input records.
\<close>

theorem funding_inputs_omitted_when_no_coins:
  assumes "FundPsbt fa \<in> set (trace (run a pa rs))"
  shows "(\<exists>us. r_utxos (run a pa rs) = Some us
            \<and> fa_inputs fa = (if us = [] then None else Some (map asInput (map asUtxo us))))
    \<and> (arg_utxos a = Some [] \<and> \<not> arg_is_selecting_utxos a \<longrightarrow> fa_inputs fa = None)
    \<and> (\<forall>us. arg_utxos a = Some us \<and> us \<noteq> []
          \<longrightarrow> fa_inputs fa = Some (map asInput (map asUtxo us)))"
proof -
  let ?s = "run a pa rs"
  from invariants_run [of a pa rs] have w: "wf a ?s" and sl: "inv_sel a ?s" by simp_all
  from w assms obtain us where us: "r_utxos ?s = Some us"
    and fa: "fa = fund_call a (the (r_getFee ?s)) (the (r_outputs ?s)) (the (r_utxos ?s))"
    by (auto simp: wf_def)
  have i: "fa_inputs fa = (if us = [] then None else Some (map asInput (map asUtxo us)))"
    by (subst fa) (simp add: fund_call_def us)
  have g: "(given_utxos a \<noteq> [] \<longrightarrow> us = given_utxos a)
      \<and> (given_utxos a = [] \<and> \<not> arg_is_selecting_utxos a \<longrightarrow> us = [])"
    using sl us by (simp add: inv_sel_def)
  have 2: "arg_utxos a = Some [] \<and> \<not> arg_is_selecting_utxos a \<longrightarrow> fa_inputs fa = None"
    using g i by (simp add: given_utxos_def)
  have 3: "\<forall>xs. arg_utxos a = Some xs \<and> xs \<noteq> [] \<longrightarrow> fa_inputs fa = Some (map asInput (map asUtxo xs))"
    using g i by (auto simp: given_utxos_def)
  from us i 2 3 show ?thesis by blast
qed

theorem funding_inputs_omitted_when_no_coins_witness:
  "FundPsbt \<lparr>fa_outputs = [\<lparr>out_address = ''addr1'', out_tokens = 100000\<rparr>],
       fa_inputs = Some [\<lparr>in_transaction_id = txid_ab, in_transaction_vout = Some 0\<rparr>],
       fa_fee_tokens_per_vbyte = 5\<rparr>
     \<in> set (trace (run request_explicit parse_100000 [FeeReturn (Inr 5)]))
   \<and> arg_utxos request_explicit = Some [txid_ab @ '':0'']
   \<and> r_utxos (run request_explicit parse_100000 [FeeReturn (Inr 5)]) = Some [txid_ab @ '':0'']
   \<and> Some [\<lparr>in_transaction_id = txid_ab, in_transaction_vout = Some 0\<rparr>]
       = Some (map asInput (map asUtxo [txid_ab @ '':0'']))"
proof -
  have o: "isOutpoint (txid_ab @ '':0'')" by code_simp
  have p: "\<not> isPublicKey ''addr1''" by (simp add: isPublicKey_def)
  have c: "asInput (asUtxo (txid_ab @ '':0''))
             = \<lparr>in_transaction_id = txid_ab, in_transaction_vout = Some 0\<rparr>"
    by code_simp
  have h: "FundPsbt \<lparr>fa_outputs = [\<lparr>out_address = ''addr1'', out_tokens = 100000\<rparr>],
       fa_inputs = Some [\<lparr>in_transaction_id = txid_ab, in_transaction_vout = Some 0\<rparr>],
       fa_fee_tokens_per_vbyte = 5\<rparr>
     \<in> set (trace (run request_explicit parse_100000 [FeeReturn (Inr 5)]))"
    using o p c by (simp add: request_explicit_def request_def parse_100000_def eval_defs)
  have a: "arg_utxos request_explicit = Some [txid_ab @ '':0'']"
    by (simp add: request_explicit_def request_def)
  from funding_inputs_omitted_when_no_coins [OF h] a
  have "fa_inputs \<lparr>fa_outputs = [\<lparr>out_address = ''addr1'', out_tokens = 100000\<rparr>],
       fa_inputs = Some [\<lparr>in_transaction_id = txid_ab, in_transaction_vout = Some 0\<rparr>],
       fa_fee_tokens_per_vbyte = 5\<rparr> = Some (map asInput (map asUtxo [txid_ab @ '':0'']))"
    by blast
  then have e: "Some [\<lparr>in_transaction_id = txid_ab, in_transaction_vout = Some 0\<rparr>]
       = Some (map asInput (map asUtxo [txid_ab @ '':0'']))"
    by simp
  have u: "r_utxos (run request_explicit parse_100000 [FeeReturn (Inr 5)]) = Some [txid_ab @ '':0'']"
    using o p by (simp add: request_explicit_def request_def parse_100000_def eval_defs)
  from h a u e show ?thesis by (intro conjI)
qed

text \<open>
  C7. When the coin enumeration of an interactive selection has returned no confirmed coin,
  the prompt is never invoked and the invocation has failed: with the empty-wallet error,
  unless the fee estimation had failed before the enumeration returned, in which case it
  has failed with the error of the fee estimation.
\<close>

theorem empty_wallet_fails_without_prompt:
  assumes "r_getUtxos (run a pa rs) = Some (Some [])"
  shows "(\<forall>choices. Ask choices \<notin> set (trace (run a pa rs)))
    \<and> (outcome (run a pa rs) = Some (Inl EmptyWallet)
        \<or> (\<exists>c m. outcome (run a pa rs) = Some (Inl (External c m)))
            \<and> r_getFee (run a pa rs) = None
            \<and> PFee \<notin> set (pendings (run a pa rs)))"
proof -
  let ?s = "run a pa rs"
  from invariants_run [of a pa rs] have e: "inv_empty a ?s" by simp
  from e assms have 1: "filter is_ask (trace ?s) = []"
    and 2: "outcome ?s = Some (Inl EmptyWallet)
        \<or> failed_external (outcome ?s) \<and> r_getFee ?s = None \<and> PFee \<notin> set (pendings ?s)"
    by (simp_all add: inv_empty_def)
  from 1 have "\<forall>choices. Ask choices \<notin> set (trace ?s)"
    using filter_is_ask_iff [of "trace ?s"] by blast
  with 2 show ?thesis by (auto simp: failed_external_iff)
qed

theorem empty_wallet_fails_without_prompt_witness:
  "r_getUtxos (run request_selecting parse_100000 [UtxosReturn (Inr [])]) = Some (Some [])
   \<and> outcome (run request_selecting parse_100000 [UtxosReturn (Inr [])]) = Some (Inl EmptyWallet)
   \<and> (\<forall>choices. Ask choices \<notin> set (trace (run request_selecting parse_100000 [UtxosReturn (Inr [])])))"
proof -
  have h: "r_getUtxos (run request_selecting parse_100000 [UtxosReturn (Inr [])]) = Some (Some [])"
    and o: "outcome (run request_selecting parse_100000 [UtxosReturn (Inr [])]) = Some (Inl EmptyWallet)"
    by (simp_all add: request_selecting_def request_def parse_100000_def eval_defs)
  from empty_wallet_fails_without_prompt [OF h] h o show ?thesis by blast
qed

theorem empty_wallet_counterexample:
  "arg_is_selecting_utxos request_selecting
   \<and> r_getUtxos (run request_selecting parse_100000 [FeeReturn (Inl fee_error), UtxosReturn (Inr [])])
       = Some (Some [])
   \<and> outcome (run request_selecting parse_100000 [FeeReturn (Inl fee_error), UtxosReturn (Inr [])])
       = Some (Inl (External 503 ''UnexpectedErrorGettingFeeRate''))
   \<and> outcome (run request_selecting parse_100000 [FeeReturn (Inl fee_error), UtxosReturn (Inr [])])
       \<noteq> Some (Inl EmptyWallet)"
  by (simp add: request_selecting_def request_def parse_100000_def fee_error_def eval_defs)

lemma callback_fee_zero:
  assumes "arg_fee_tokens_per_vbyte a = Some 0"
  shows "callback (a\<lparr>arg_fee_tokens_per_vbyte := None\<rparr>) r s = callback a r s"
proof -
  have t: "try_fund (a\<lparr>arg_fee_tokens_per_vbyte := None\<rparr>) s' = try_fund a s'" for s'
    using assms by (simp add: try_fund_def fund_def fee_of_def split: option.splits)
  have u: "utxos (a\<lparr>arg_fee_tokens_per_vbyte := None\<rparr>) g s' = utxos a g s'" for g s'
    by (simp add: utxos_def complete_utxos_def t Let_def)
  have f: "after_fund (a\<lparr>arg_fee_tokens_per_vbyte := None\<rparr>) g s' = after_fund a g s'" for g s'
    by (simp add: after_fund_def unlock_def)
  show ?thesis
    by (cases "(a, r, s)" rule: callback.cases) (simp_all add: t u f complete_utxos_def)
qed

lemma start_fee_zero:
  assumes "arg_fee_tokens_per_vbyte a = Some 0"
  shows "start (a\<lparr>arg_fee_tokens_per_vbyte := None\<rparr>) pa = start a pa"
proof -
  have v: "validate (a\<lparr>arg_fee_tokens_per_vbyte := None\<rparr>) = validate a"
    by (simp add: validate_def cong: option.case_cong if_cong)
  have t: "try_fund (a\<lparr>arg_fee_tokens_per_vbyte := None\<rparr>) s' = try_fund a s'" for s'
    using assms by (simp add: try_fund_def fund_def fee_of_def split: option.splits)
  have o: "outputs (a\<lparr>arg_fee_tokens_per_vbyte := None\<rparr>) pa s' = outputs a pa s'" for s'
    by (simp add: outputs_def getUtxos_def utxos_def complete_utxos_def t Let_def
        split: prod.splits sum.splits)
  show ?thesis by (simp add: start_def v o cong: option.case_cong)
qed

lemma run_fee_zero:
  assumes "arg_fee_tokens_per_vbyte a = Some 0"
  shows "run (a\<lparr>arg_fee_tokens_per_vbyte := None\<rparr>) pa rs = run a pa rs"
proof -
  have "deliver (a\<lparr>arg_fee_tokens_per_vbyte := None\<rparr>) = deliver a"
    by (intro ext) (simp add: deliver_def callback_fee_zero [OF assms])
  then show ?thesis by (simp add: run_def start_fee_zero [OF assms])
qed

text \<open>
  C9. A request with the explicit fee rate 0 runs exactly as the same request without a
  fee rate: the rate passed to the funding primitive is the rate the external fee
  estimation returned.
\<close>

theorem zero_fee_rate_behaves_as_absent:
  assumes "arg_fee_tokens_per_vbyte a = Some 0"
  shows "run a pa rs = run (a\<lparr>arg_fee_tokens_per_vbyte := None\<rparr>) pa rs
    \<and> (\<forall>fa. FundPsbt fa \<in> set (trace (run a pa rs))
          \<longrightarrow> r_getFee (run a pa rs) = Some (fa_fee_tokens_per_vbyte fa))"
proof -
  let ?s = "run a pa rs"
  from invariants_run [of a pa rs] have w: "wf a ?s" by simp
  have "r_getFee ?s = Some (fa_fee_tokens_per_vbyte fa)" if "FundPsbt fa \<in> set (trace ?s)" for fa
  proof -
    from w that have q: "r_getFee ?s \<noteq> None"
      and fa: "fa = fund_call a (the (r_getFee ?s)) (the (r_outputs ?s)) (the (r_utxos ?s))"
      by (simp_all add: wf_def)
    have "fa_fee_tokens_per_vbyte fa = the (r_getFee ?s)"
      by (subst fa) (simp add: fund_call_def fee_of_def assms)
    with q show ?thesis by auto
  qed
  then show ?thesis using run_fee_zero [OF assms, of pa rs] by simp
qed

theorem zero_fee_rate_behaves_as_absent_witness:
  "arg_fee_tokens_per_vbyte (request_fee 0) = Some 0
   \<and> FundPsbt \<lparr>fa_outputs = [\<lparr>out_address = ''addr1'', out_tokens = 100000\<rparr>], fa_inputs = None,
       fa_fee_tokens_per_vbyte = 5\<rparr> \<in> set (trace (run (request_fee 0) parse_100000 [FeeReturn (Inr 5)]))
   \<and> r_getFee (run (request_fee 0) parse_100000 [FeeReturn (Inr 5)]) = Some 5"
proof -
  have z: "arg_fee_tokens_per_vbyte (request_fee 0) = Some 0"
    by (simp add: request_fee_def)
  have h: "FundPsbt \<lparr>fa_outputs = [\<lparr>out_address = ''addr1'', out_tokens = 100000\<rparr>], fa_inputs = None,
       fa_fee_tokens_per_vbyte = 5\<rparr> \<in> set (trace (run (request_fee 0) parse_100000 [FeeReturn (Inr 5)]))"
    by (simp add: request_fee_def request_def parse_100000_def eval_defs)
  from zero_fee_rate_behaves_as_absent [OF z, of parse_100000 "[FeeReturn (Inr 5)]"] h
  have "r_getFee (run (request_fee 0) parse_100000 [FeeReturn (Inr 5)])
          = Some (fa_fee_tokens_per_vbyte \<lparr>fa_outputs = [\<lparr>out_address = ''addr1'', out_tokens = 100000\<rparr>],
              fa_inputs = None, fa_fee_tokens_per_vbyte = 5\<rparr>)"
    by blast
  with z h show ?thesis by simp
qed

text \<open>
  C10. The dust check runs inside the task \<open>fund\<close> only: an invocation that has failed with
  the dust-output error has resolved the fee rate and the coin list before, and its outputs
  include one below the dust floor. With interactive selection the prompt has been shown and
  has been answered by then.
\<close>

theorem dust_check_after_fee_and_coins:
  assumes "outcome (run a pa rs) = Some (Inl DustOutput)"
  shows "r_getFee (run a pa rs) \<noteq> None \<and> r_utxos (run a pa rs) \<noteq> None
    \<and> (\<exists>outs. r_outputs (run a pa rs) = Some outs \<and> (\<exists>n\<in>set outs. out_tokens n < dustValue))
    \<and> (arg_is_selecting_utxos a \<longrightarrow>
         (\<exists>choices. Ask choices \<in> set (trace (run a pa rs)))
         \<and> PAsk \<notin> set (pendings (run a pa rs)))"
proof -
  let ?s = "run a pa rs"
  from invariants_run [of a pa rs] have w: "wf a ?s" and d: "inv_dust a ?s" and sl: "inv_sel a ?s"
    by simp_all
  from d assms have q: "r_getFee ?s \<noteq> None" and u: "r_utxos ?s \<noteq> None" and y: "dusty (outs_of ?s)"
    by (simp_all add: inv_dust_def)
  from y obtain outs where outs: "r_outputs ?s = Some outs"
    by (cases "r_outputs ?s") auto
  with y have z: "\<exists>n\<in>set outs. out_tokens n < dustValue" by (simp add: dusty_iff)
  have k: "PAsk \<notin> set (pendings ?s)" using wf_results(1) [OF w] u by simp
  have "\<exists>choices. Ask choices \<in> set (trace ?s)" if "arg_is_selecting_utxos a"
  proof -
    from sl that u have "filter is_ask (trace ?s) \<noteq> []" by (simp add: inv_sel_def)
    then show ?thesis by (simp add: filter_is_ask_iff)
  qed
  with q u outs z k show ?thesis by blast
qed

theorem dust_check_after_fee_and_coins_witness:
  "outcome (run request_selecting parse_200
       [UtxosReturn (Inr wallet_one), FeeReturn (Inr 2), AskReturn [outpoint_of (hd wallet_one)]])
     = Some (Inl DustOutput)
   \<and> arg_is_selecting_utxos request_selecting
   \<and> Ask (choices_of wallet_one) \<in> set (trace (run request_selecting parse_200
       [UtxosReturn (Inr wallet_one), FeeReturn (Inr 2), AskReturn [outpoint_of (hd wallet_one)]]))
   \<and> outcome (run request_selecting parse_200 [UtxosReturn (Inr wallet_one), FeeReturn (Inr 2)]) = None
   \<and> r_getFee (run request_selecting parse_200
       [UtxosReturn (Inr wallet_one), FeeReturn (Inr 2), AskReturn [outpoint_of (hd wallet_one)]]) \<noteq> None"
proof -
  have w: "wallet_one \<noteq> []" by (simp add: wallet_one_def)
  have h: "outcome (run request_selecting parse_200
       [UtxosReturn (Inr wallet_one), FeeReturn (Inr 2), AskReturn [outpoint_of (hd wallet_one)]])
     = Some (Inl DustOutput)"
    using w by (simp add: request_selecting_def request_def parse_200_def eval_defs)
  have b: "outcome (run request_selecting parse_200 [UtxosReturn (Inr wallet_one), FeeReturn (Inr 2)]) = None"
    using w by (simp add: request_selecting_def request_def parse_200_def eval_defs)
  have a: "Ask (choices_of wallet_one) \<in> set (trace (run request_selecting parse_200
       [UtxosReturn (Inr wallet_one), FeeReturn (Inr 2), AskReturn [outpoint_of (hd wallet_one)]]))"
    using w by (simp add: request_selecting_def request_def parse_200_def eval_defs)
  have s: "arg_is_selecting_utxos request_selecting"
    by (simp add: request_selecting_def)
  from dust_check_after_fee_and_coins [OF h] h b a s show ?thesis by blast
qed

subsection \<open>The prompt's validation function\<close>

text \<open>
  C4. For a non-empty selection of coins the wallet lists, whose outpoint strings are
  distinct, the validation function accepts exactly when the sum of the selected coins
  covers the requested total. Otherwise it returns the message that names the sum selected
  and the shortfall, each in display units; the shortfall printed is a decimal numeral with
  eight fractional digits whose value is the requested total minus the sum selected,
  divided by \<open>10 ^ 8\<close>. The empty selection is rejected.
\<close>

theorem prompt_validation_accepts_iff_covered:
  assumes "distinct (map outpoint_of us)" and "set sel \<subseteq> set us" and "sel \<noteq> []"
  shows "ask_validate us amounts (map outpoint_of sel)
           = (if sumOf amounts \<le> sumOf (map tokens sel) then VTrue
              else VMessage (''Selected '' @ asBigUnit (sumOf (map tokens sel)) @ '', need ''
                     @ asBigUnit (sumOf amounts - sumOf (map tokens sel)) @ '' more''))
         \<and> (sumOf (map tokens sel) < sumOf amounts \<longrightarrow>
              (\<exists>whole frac. asBigUnit (sumOf amounts - sumOf (map tokens sel)) = whole @ ''.'' @ frac
                 \<and> length frac = 8 \<and> list_all is_digit whole \<and> whole \<noteq> [] \<and> list_all is_digit frac
                 \<and> int (dec_value whole) * 10 ^ 8 + int (dec_value frac)
                     = sumOf amounts - sumOf (map tokens sel)))
         \<and> ask_validate us amounts [] = VFalse"
proof -
  have 1: "selected_tokens us (map outpoint_of sel) = Some (map tokens sel)"
    by (rule selected_tokens_subset [OF assms(1,2)])
  have 2: "ask_validate us amounts (map outpoint_of sel)
           = (if sumOf amounts \<le> sumOf (map tokens sel) then VTrue
              else VMessage (''Selected '' @ asBigUnit (sumOf (map tokens sel)) @ '', need ''
                     @ asBigUnit (sumOf amounts - sumOf (map tokens sel)) @ '' more''))"
    using assms(3) 1 by (simp add: ask_validate_def Let_def)
  have 3: "ask_validate us amounts [] = VFalse" by (simp add: ask_validate_def)
  show ?thesis using 2 3 asBigUnit_value [of "sumOf amounts - sumOf (map tokens sel)"] by simp
qed

theorem prompt_validation_accepts_iff_covered_witness:
  "distinct (map outpoint_of wallet_one) \<and> set wallet_one \<subseteq> set wallet_one \<and> wallet_one \<noteq> []
   \<and> ask_validate wallet_one [700] (map outpoint_of wallet_one)
       = VMessage ''Selected 0.00000500, need 0.00000200 more''"
proof -
  have h: "distinct (map outpoint_of wallet_one)" "set wallet_one \<subseteq> set wallet_one" "wallet_one \<noteq> []"
    by (simp_all add: wallet_one_def)
  have s: "sumOf (map tokens wallet_one) = 500" "sumOf [700] = 700"
    by (simp_all add: wallet_one_def sumOf_def)
  have b: "asBigUnit 500 = ''0.00000500''" "asBigUnit (700 - 500) = ''0.00000200''"
    by (simp_all add: display_simps) (simp_all add: eval_nat_numeral)
  have le: "\<not> (700::int) \<le> 500" by simp
  from prompt_validation_accepts_iff_covered [OF h, of "[700]", unfolded s b if_not_P [OF le]]
  have "ask_validate wallet_one [700] (map outpoint_of wallet_one)
       = VMessage (''Selected '' @ ''0.00000500'' @ '', need '' @ ''0.00000200'' @ '' more'')"
    by (rule conjunct1)
  then have "ask_validate wallet_one [700] (map outpoint_of wallet_one)
       = VMessage ''Selected 0.00000500, need 0.00000200 more''"
    by simp
  with h show ?thesis by (intro conjI)
qed

subsection \<open>Explicit coins\<close>

text \<open>
  C8. An explicit coin string of the form the pattern \<open>isOutpoint\<close> accepts (64 hexadecimal
  characters, a colon, one to six decimal digits) becomes the input record whose
  transaction id is its first 64 characters and whose output index is the number its digits
  denote, at most 999999. The string formed again from the record is an outpoint string, and
  converting it gives the same record: it names the same outpoint.
\<close>

theorem explicit_coin_becomes_input:
  assumes "isOutpoint n"
  shows "asInput (asUtxo n)
           = \<lparr>in_transaction_id = take 64 n, in_transaction_vout = Some (dec_value (drop 65 n))\<rparr>
         \<and> length (take 64 n) = 64 \<and> dec_value (drop 65 n) \<le> 999999
         \<and> isOutpoint (asOutpoint (take 64 n) (dec_value (drop 65 n)))
         \<and> asInput (asUtxo (asOutpoint (take 64 n) (dec_value (drop 65 n)))) = asInput (asUtxo n)"
proof -
  from assms have len: "66 \<le> length n" "length n \<le> 71" and dig: "list_all is_digit (drop 65 n)"
    by (simp_all add: isOutpoint_def)
  have ne: "drop 65 n \<noteq> []" using len by simp
  have 1: "asUtxo n = \<lparr>p_id = take 64 n, p_vout = Some (dec_value (drop 65 n))\<rparr>"
    using dig ne by (simp add: asUtxo_def Number_js_def)
  have t: "length (take 64 n) = 64" using len by simp
  have "dec_value (drop 65 n) < 10 ^ length (drop 65 n)" by (rule dec_value_bound)
  also have "\<dots> \<le> 10 ^ 6" using len by (intro power_increasing) simp_all
  finally have b: "dec_value (drop 65 n) \<le> 999999" by simp
  show ?thesis
    using 1 t b isOutpoint_asOutpoint [OF assms] asUtxo_asOutpoint [OF t]
    by (simp add: asInput_def)
qed

theorem explicit_coin_becomes_input_witness:
  "isOutpoint (txid_ab @ '':0'')
   \<and> asInput (asUtxo (txid_ab @ '':0'')) = \<lparr>in_transaction_id = txid_ab, in_transaction_vout = Some 0\<rparr>"
proof -
  have h: "isOutpoint (txid_ab @ '':0'')" by code_simp
  have t: "take 64 (txid_ab @ '':0'') = txid_ab" by code_simp
  have d: "dec_value (drop 65 (txid_ab @ '':0'')) = 0" by code_simp
  from explicit_coin_becomes_input [OF h, unfolded t d]
  have "asInput (asUtxo (txid_ab @ '':0'')) = \<lparr>in_transaction_id = txid_ab, in_transaction_vout = Some 0\<rparr>"
    by (rule conjunct1)
  with h show ?thesis by (rule conjI)
qed

lemma reformed_outpoint_drops_leading_zeros:
  "asOutpoint (take 64 (txid_ab @ '':007'')) (dec_value (drop 65 (txid_ab @ '':007''))) = txid_ab @ '':7''"
  by code_simp

text \<open>
  The validator lets a coin list through whose first element that is not an outpoint is
  the empty string, since the element \<open>find\<close> returns is tested for truthiness.
\<close>

lemma validate_accepts_empty_coin_string:
  "validate (request\<lparr>arg_utxos := Some ['''', ''junk'']\<rparr>) = None"
  by (simp add: request_def validate_def isPublicKey_def isOutpoint_def)

end
